theory Spec2Isabelle
  imports Main "HOL-Library.Sublist"
begin

section \<open>Strings of the host language\<close>

text \<open>
  A JavaScript string is a sequence of UTF-16 code units. The regular expressions of
  \<^verbatim>\<open>pull.js\<close> carry no \<^verbatim>\<open>u\<close> flag, so they too work on code units. A code unit is
  modelled by its number; \<open>js\<close> turns a literal of this theory into such a string.
\<close>

type_synonym jstring = "nat list"

definition js :: "string \<Rightarrow> jstring" where
  "js s = map of_char s"

text \<open>
  The class \<^verbatim>\<open>\s\<close> of ECMAScript regular expressions: WhiteSpace and LineTerminator
  (TAB, LF, VT, FF, CR, SP, NBSP, U+1680, U+2000 to U+200A, U+2028, U+2029, U+202F,
  U+205F, U+3000, U+FEFF).
\<close>

definition is_space :: "nat \<Rightarrow> bool" where
  "is_space c = (c = 9 \<or> c = 10 \<or> c = 11 \<or> c = 12 \<or> c = 13 \<or> c = 32 \<or> c = 160 \<or> c = 5760
     \<or> (8192 \<le> c \<and> c \<le> 8202) \<or> c = 8232 \<or> c = 8233 \<or> c = 8239 \<or> c = 8287
     \<or> c = 12288 \<or> c = 65279)"

text \<open>\<^verbatim>\<open>/\s$/.test(s)\<close>: without the \<^verbatim>\<open>m\<close> flag, \<^verbatim>\<open>$\<close> is the end of the string.\<close>

definition ends_with_space :: "jstring \<Rightarrow> bool" where
  "ends_with_space s = (case rev s of [] \<Rightarrow> False | c # _ \<Rightarrow> is_space c)"

section \<open>JSON values and \<^verbatim>\<open>JSON.stringify(v, null, 2)\<close>\<close>

text \<open>
  The values \<^verbatim>\<open>JSON.parse\<close> produces. An object is the list of its own properties in
  the order \<^verbatim>\<open>JSON.stringify\<close> and \<^verbatim>\<open>Object.values\<close> visit them. A number of the host
  language is an IEEE double: \<open>JNum n\<close> is the double whose value is the integer \<open>n\<close>,
  \<open>JFrac m k\<close> the double whose value is \<open>m / 10 ^ k\<close> and not an integer (every double
  has a finite decimal expansion), and \<open>JInf neg\<close> is \<^verbatim>\<open>Infinity\<close>, or \<^verbatim>\<open>-Infinity\<close> when
  \<open>neg\<close> holds. Both zeros are \<open>JNum 0\<close>: no operation used here tells \<^verbatim>\<open>-0\<close> from \<^verbatim>\<open>0\<close>.
  \<^verbatim>\<open>JSON.parse\<close> produces no \<^verbatim>\<open>NaN\<close>.
\<close>

datatype json =
    JNull
  | JBool bool
  | JNum int
  | JFrac int nat
  | JInf bool
  | JStr jstring
  | JArr "json list"
  | JObj "(jstring \<times> json) list"

function nat_digits :: "nat \<Rightarrow> jstring" where
  "nat_digits n = (if n < 10 then [48 + n] else nat_digits (n div 10) @ [48 + n mod 10])"
  by pat_completeness auto
termination
  by (relation "measure id") auto

declare nat_digits.simps [simp del]

definition int_text :: "int \<Rightarrow> jstring" where
  "int_text i = (if i < 0 then 45 # nat_digits (nat (- i)) else nat_digits (nat i))"

subsection \<open>Doubles\<close>

text \<open>The number of binary digits of \<open>n\<close>.\<close>

function bit_length :: "nat \<Rightarrow> nat" where
  "bit_length n = (if n = 0 then 0 else Suc (bit_length (n div 2)))"
  by pat_completeness auto
termination
  by (relation "measure id") auto

declare bit_length.simps [simp del]

text \<open>The integer nearest to \<open>a / b\<close>, the even one of two that are equally near.\<close>

definition round_half_even :: "nat \<Rightarrow> nat \<Rightarrow> nat" where
  "round_half_even a b =
     (let q = a div b; r = a mod b
      in if 2 * r < b then q else if b < 2 * r then q + 1 else if even q then q else q + 1)"

text \<open>The \<open>t\<close> with \<open>2 ^ t \<le> a / b < 2 ^ (t + 1)\<close>, for a positive \<open>a / b\<close>.\<close>

definition binary_exponent :: "nat \<Rightarrow> nat \<Rightarrow> int" where
  "binary_exponent a b =
     (let t = int (bit_length a) - int (bit_length b)
      in if (if 0 \<le> t then b * 2 ^ nat t \<le> a else b \<le> a * 2 ^ nat (- t)) then t else t - 1)"

text \<open>
  The double nearest to the positive fraction \<open>a / b\<close>, ties to the even significand:
  \<open>Some (m, e)\<close> is \<open>m * 2 ^ e\<close> with a significand \<open>m\<close> of at most 53 bits and
  \<open>- 1074 \<le> e\<close>, and \<open>None\<close> is the overflow to \<^verbatim>\<open>Infinity\<close>. A fraction below half of the
  smallest double gives the significand 0.
\<close>

definition to_double :: "nat \<Rightarrow> nat \<Rightarrow> (nat \<times> int) option" where
  "to_double a b =
     (let e = max (binary_exponent a b - 52) (- 1074);
          m = (if 0 \<le> e then round_half_even a (b * 2 ^ nat e)
               else round_half_even (a * 2 ^ nat (- e)) b)
      in if 971 < e \<or> (e = 971 \<and> m = 2 ^ 53) then None
         else if m = 2 ^ 53 then Some (2 ^ 52, e + 1)
         else Some (m, e))"

text \<open>The value \<open>m * 2 ^ e\<close> of a double as a fraction.\<close>

definition double_fraction :: "nat \<times> int \<Rightarrow> nat \<times> nat" where
  "double_fraction d =
     (case d of (m, e) \<Rightarrow> if 0 \<le> e then (m * 2 ^ nat e, 1) else (m, 2 ^ nat (- e)))"

subsection \<open>Number::toString\<close>

text \<open>
  The decimal exponent \<open>n\<close> of a positive fraction: \<open>10 ^ (n - 1) \<le> a / b < 10 ^ n\<close>.
  \<open>decimal_shift\<close> counts the factors of ten that bring a fraction below 1 up to 1.
\<close>

function decimal_shift :: "nat \<Rightarrow> nat \<Rightarrow> nat" where
  "decimal_shift a b = (if a = 0 \<or> b \<le> a then 0 else Suc (decimal_shift (10 * a) b))"
  by pat_completeness auto
termination
  by (relation "measure (\<lambda>(a, b). b - a)") auto

declare decimal_shift.simps [simp del]

definition decimal_exponent :: "nat \<Rightarrow> nat \<Rightarrow> int" where
  "decimal_exponent a b =
     (if b \<le> a then int (length (nat_digits (a div b))) else 1 - int (decimal_shift a b))"

text \<open>
  Number::toString takes integers \<open>n\<close>, \<open>k\<close> and \<open>s\<close> with \<open>k\<close> digits in \<open>s\<close> such that
  \<open>s * 10 ^ (n - k)\<close> reads back as the double, for the least \<open>k\<close> there is; of two such
  \<open>s\<close> the one nearer to the double, and the even one when they are equally near.
  \<open>candidate d a b n k\<close> is that \<open>s\<close> for the double \<open>d\<close> of value \<open>a / b\<close> and decimal
  exponent \<open>n\<close>, if \<open>k\<close> digits are enough: \<open>s\<close> is one of the two integers around
  \<open>a / b * 10 ^ (k - n)\<close>. \<open>shortest\<close> tries \<open>k\<close> from 1 on; 17 digits are enough for
  every double.
\<close>

definition candidate :: "(nat \<times> int) option \<Rightarrow> nat \<Rightarrow> nat \<Rightarrow> int \<Rightarrow> nat \<Rightarrow> nat option" where
  "candidate d a b n k =
     (let j = int k - n;
          p = (if 0 \<le> j then a * 10 ^ nat j else a);
          q = (if 0 \<le> j then b else b * 10 ^ nat (- j));
          lo = p div q; r = p mod q; hi = lo + 1;
          reads = (\<lambda>s. (if 0 \<le> j then to_double s (10 ^ nat j)
                         else to_double (s * 10 ^ nat (- j)) 1) = d);
          lo_ok = reads lo; hi_ok = reads hi
      in if r = 0 then (if lo_ok then Some lo else None)
         else if lo_ok \<and> hi_ok then
           (if 2 * r < q then Some lo else if q < 2 * r then Some hi
            else if even lo then Some lo else Some hi)
         else if lo_ok then Some lo else if hi_ok then Some hi else None)"

fun shortest :: "(nat \<times> int) option \<Rightarrow> nat \<Rightarrow> nat \<Rightarrow> int \<Rightarrow> nat \<Rightarrow> nat \<Rightarrow> nat \<times> nat" where
  "shortest d a b n k 0 = (a div b, k)"
| "shortest d a b n k (Suc f) =
     (case candidate d a b n k of Some s \<Rightarrow> (s, k) | None \<Rightarrow> shortest d a b n (Suc k) f)"

text \<open>The exponent part: \<^verbatim>\<open>e\<close>, a sign that is always written, and the digits.\<close>

definition exponent_text :: "int \<Rightarrow> jstring" where
  "exponent_text e = 101 # (if e < 0 then 45 else 43) # nat_digits (nat \<bar>e\<bar>)"

text \<open>
  The digits \<open>ds\<close> of \<open>s\<close> laid out for the decimal exponent \<open>n\<close>: an integer up to 21
  digits long is written out with zeros, a point is put inside the digits or after
  \<^verbatim>\<open>0.\<close> and up to six zeros, and everything else takes the exponent form.
\<close>

definition format_digits :: "jstring \<Rightarrow> int \<Rightarrow> jstring" where
  "format_digits ds n =
     (let k = int (length ds)
      in if k \<le> n \<and> n \<le> 21 then ds @ replicate (nat (n - k)) 48
         else if 0 < n \<and> n \<le> 21 then take (nat n) ds @ [46] @ drop (nat n) ds
         else if - 6 < n \<and> n \<le> 0 then [48, 46] @ replicate (nat (- n)) 48 @ ds
         else if k = 1 then ds @ exponent_text (n - 1)
         else take 1 ds @ [46] @ drop 1 ds @ exponent_text (n - 1))"

definition strip_zeros :: "jstring \<Rightarrow> jstring" where
  "strip_zeros ds = rev (dropWhile (\<lambda>c. c = 48) (rev ds))"

text \<open>
  Number::toString of the double nearest to \<open>a / b\<close>, negated when \<open>neg\<close> holds. When the
  upper candidate is a power of ten, \<open>s\<close> has one digit more than \<open>k\<close> and the decimal
  exponent is one higher.
\<close>

definition Number_toString :: "bool \<Rightarrow> nat \<Rightarrow> nat \<Rightarrow> jstring" where
  "Number_toString neg a b =
     (if a = 0 then [48]
      else
        (case to_double a b of
           None \<Rightarrow> (if neg then [45] else []) @ js ''Infinity''
         | Some d \<Rightarrow>
             (case double_fraction d of
                (p, q) \<Rightarrow>
                  if p = 0 then [48]
                  else
                    (let n = decimal_exponent p q;
                         (s, k) = shortest (Some d) p q n 1 17;
                         ds = nat_digits s
                     in (if neg then [45] else [])
                          @ format_digits (strip_zeros ds) (n + int (length ds) - int k)))))"

text \<open>Number::toString of the double nearest to the integer \<open>n\<close>.\<close>

definition Integer_toString :: "int \<Rightarrow> jstring" where
  "Integer_toString n = Number_toString (n < 0) (nat \<bar>n\<bar>) 1"

subsection \<open>Strings and structure\<close>

definition hex_digit :: "nat \<Rightarrow> nat" where
  "hex_digit d = (if d < 10 then 48 + d else 87 + d)"

text \<open>UnicodeEscape: \<^verbatim>\<open>\u\<close> and four lower-case hexadecimal digits.\<close>

definition unicode_escape :: "nat \<Rightarrow> jstring" where
  "unicode_escape c =
     [92, 117, hex_digit (c div 4096 mod 16), hex_digit (c div 256 mod 16),
      hex_digit (c div 16 mod 16), hex_digit (c mod 16)]"

definition is_lead :: "nat \<Rightarrow> bool" where
  "is_lead c = (55296 \<le> c \<and> c \<le> 56319)"

definition is_trail :: "nat \<Rightarrow> bool" where
  "is_trail c = (56320 \<le> c \<and> c \<le> 57343)"

text \<open>One code unit of QuoteJSONString that is not part of a surrogate pair.\<close>

definition quote_unit :: "nat \<Rightarrow> jstring" where
  "quote_unit c =
     (if c = 8 then [92, 98]
      else if c = 9 then [92, 116]
      else if c = 10 then [92, 110]
      else if c = 12 then [92, 102]
      else if c = 13 then [92, 114]
      else if c = 34 then [92, 34]
      else if c = 92 then [92, 92]
      else if c < 32 \<or> is_lead c \<or> is_trail c then unicode_escape c
      else [c])"

text \<open>
  QuoteJSONString walks the code points of the string: a lead surrogate followed by a
  trail surrogate is one code point and is copied; a lone surrogate is escaped.
\<close>

fun quote_units :: "jstring \<Rightarrow> jstring" where
  "quote_units [] = []"
| "quote_units [c] = quote_unit c"
| "quote_units (c # d # cs) =
     (if is_lead c \<and> is_trail d then c # d # quote_units cs
      else quote_unit c @ quote_units (d # cs))"

definition quote :: "jstring \<Rightarrow> jstring" where
  "quote s = 34 # quote_units s @ [34]"

fun join :: "jstring \<Rightarrow> jstring list \<Rightarrow> jstring" where
  "join sep [] = []"
| "join sep [x] = x"
| "join sep (x # y # ys) = x @ sep @ join sep (y # ys)"

text \<open>
  SerializeJSONProperty with the gap of two spaces; \<open>ind\<close> is the current indent.
  An empty array or object is \<^verbatim>\<open>[]\<close> or \<^verbatim>\<open>{}\<close>; otherwise every element stands on a
  line of its own, one gap deeper, and the closing bracket on the indent. A number
  that is not finite is written \<^verbatim>\<open>null\<close>.
\<close>

fun stringify_at :: "jstring \<Rightarrow> json \<Rightarrow> jstring" where
  "stringify_at ind JNull = js ''null''"
| "stringify_at ind (JBool b) = (if b then js ''true'' else js ''false'')"
| "stringify_at ind (JNum n) = Integer_toString n"
| "stringify_at ind (JFrac m k) = Number_toString (m < 0) (nat \<bar>m\<bar>) (10 ^ k)"
| "stringify_at ind (JStr s) = quote s"
| "stringify_at ind (JArr xs) =
     (if xs = [] then js ''[]''
      else [91, 10] @ (ind @ [32, 32])
        @ join ([44, 10] @ (ind @ [32, 32])) (map (stringify_at (ind @ [32, 32])) xs)
        @ [10] @ ind @ [93])"
| "stringify_at ind (JObj kvs) =
     (if kvs = [] then js ''{}''
      else [123, 10] @ (ind @ [32, 32])
        @ join ([44, 10] @ (ind @ [32, 32]))
            (map (\<lambda>kv. quote (fst kv) @ [58, 32] @ stringify_at (ind @ [32, 32]) (snd kv)) kvs)
        @ [10] @ ind @ [125])"
| "stringify_at ind (JInf neg) = js ''null''"

definition JSON_stringify :: "json \<Rightarrow> jstring" where
  "JSON_stringify v = stringify_at [] v"

section \<open>\<^verbatim>\<open>JSON.parse\<close>\<close>

text \<open>
  What a call can end with instead of a value: an exception of the host language, a
  rejected request, or a promise that never settles.
\<close>

datatype failure = SyntaxError | TypeError | NetworkError | NeverSettles

text \<open>JSON white space: space, TAB, LF and CR only.\<close>

definition json_ws :: "nat \<Rightarrow> bool" where
  "json_ws c = (c = 32 \<or> c = 9 \<or> c = 10 \<or> c = 13)"

definition skip_ws :: "jstring \<Rightarrow> jstring" where
  "skip_ws s = dropWhile json_ws s"

definition is_digit :: "nat \<Rightarrow> bool" where
  "is_digit c = (48 \<le> c \<and> c \<le> 57)"

definition digits_val :: "jstring \<Rightarrow> nat" where
  "digits_val ds = foldl (\<lambda>a d. 10 * a + (d - 48)) 0 ds"

definition hex_val :: "nat \<Rightarrow> nat option" where
  "hex_val c =
     (if 48 \<le> c \<and> c \<le> 57 then Some (c - 48)
      else if 97 \<le> c \<and> c \<le> 102 then Some (c - 87)
      else if 65 \<le> c \<and> c \<le> 70 then Some (c - 55)
      else None)"

text \<open>The single-character escapes of a JSON string: \<^verbatim>\<open>\" \\ \/ \b \f \n \r \t\<close>.\<close>

definition unescape :: "nat \<Rightarrow> nat option" where
  "unescape e =
     (if e = 34 then Some 34
      else if e = 92 then Some 92
      else if e = 47 then Some 47
      else if e = 98 then Some 8
      else if e = 102 then Some 12
      else if e = 110 then Some 10
      else if e = 114 then Some 13
      else if e = 116 then Some 9
      else None)"

text \<open>
  The characters of a string literal after its opening quote, up to the closing quote:
  the string's value and the text after the literal. A control character below U+0020
  must be escaped.
\<close>

fun string_body :: "jstring \<Rightarrow> (jstring \<times> jstring) option" where
  "string_body [] = None"
| "string_body (c # cs) =
     (if c = 34 then Some ([], cs)
      else if c = 92 then
        (case cs of
           [] \<Rightarrow> None
         | e # es \<Rightarrow>
             if e = 117 then
               (case es of
                  h1 # h2 # h3 # h4 # r \<Rightarrow>
                    (case (hex_val h1, hex_val h2, hex_val h3, hex_val h4) of
                       (Some a, Some b, Some c', Some d) \<Rightarrow>
                         (case string_body r of
                            None \<Rightarrow> None
                          | Some (s, t) \<Rightarrow> Some ((4096 * a + 256 * b + 16 * c' + d) # s, t))
                     | _ \<Rightarrow> None)
                | _ \<Rightarrow> None)
             else
               (case unescape e of
                  None \<Rightarrow> None
                | Some u \<Rightarrow>
                    (case string_body es of None \<Rightarrow> None | Some (s, t) \<Rightarrow> Some (u # s, t))))
      else if c < 32 then None
      else (case string_body cs of None \<Rightarrow> None | Some (s, t) \<Rightarrow> Some (c # s, t)))"

text \<open>The decimal \<open>m / 10 ^ k\<close> as a value: an integer where it is one.\<close>

fun normalize :: "int \<Rightarrow> nat \<Rightarrow> json" where
  "normalize m 0 = JNum m"
| "normalize m (Suc k) = (if m mod 10 = 0 then normalize (m div 10) k else JFrac m (Suc k))"

text \<open>The integer part of a number: \<^verbatim>\<open>0\<close>, or a digit from 1 to 9 and more digits.\<close>

definition int_part :: "jstring \<Rightarrow> (nat \<times> jstring) option" where
  "int_part s =
     (case s of
        [] \<Rightarrow> None
      | c # cs \<Rightarrow>
          if c = 48 then Some (0, cs)
          else if is_digit c then Some (digits_val (takeWhile is_digit s), dropWhile is_digit s)
          else None)"

text \<open>The optional fraction: a point and at least one digit.\<close>

definition frac_part :: "jstring \<Rightarrow> (jstring \<times> jstring) option" where
  "frac_part s =
     (case s of
        [] \<Rightarrow> Some ([], s)
      | c # cs \<Rightarrow>
          if c = 46 then
            (if takeWhile is_digit cs = [] then None
             else Some (takeWhile is_digit cs, dropWhile is_digit cs))
          else Some ([], s))"

text \<open>The optional exponent: \<^verbatim>\<open>e\<close> or \<^verbatim>\<open>E\<close>, an optional sign and at least one digit.\<close>

definition exp_digits :: "bool \<Rightarrow> jstring \<Rightarrow> (int \<times> jstring) option" where
  "exp_digits neg s =
     (if takeWhile is_digit s = [] then None
      else Some ((if neg then - 1 else 1) * int (digits_val (takeWhile is_digit s)),
                 dropWhile is_digit s))"

definition exp_part :: "jstring \<Rightarrow> (int \<times> jstring) option" where
  "exp_part s =
     (case s of
        [] \<Rightarrow> Some (0, s)
      | c # cs \<Rightarrow>
          if c = 101 \<or> c = 69 then
            (case cs of
               [] \<Rightarrow> None
             | g # gs \<Rightarrow>
                 if g = 45 then exp_digits True gs
                 else if g = 43 then exp_digits False gs
                 else exp_digits False cs)
          else Some (0, s))"

text \<open>
  The double \<open>m * 2 ^ e\<close>, negated when \<open>neg\<close> holds, as a value: \<open>m * 2 ^ e\<close> is
  \<open>m * 5 ^ k / 10 ^ k\<close> for \<open>e = - k\<close>.
\<close>

definition double_json :: "bool \<Rightarrow> nat \<times> int \<Rightarrow> json" where
  "double_json neg d =
     (case d of
        (m, e) \<Rightarrow>
          (let m' = (if neg then - int m else int m)
           in if 0 \<le> e then JNum (m' * 2 ^ nat e)
              else normalize (m' * 5 ^ nat (- e)) (nat (- e))))"

text \<open>
  The value of a number literal with the sign \<open>neg\<close>, the integer part \<open>ip\<close>, the
  digits \<open>fs\<close> of the fraction and the exponent \<open>ex\<close>: the double nearest to the
  decimal written. A literal too large for a double is an infinity, and one too small
  is zero.
\<close>

definition number_value :: "bool \<Rightarrow> nat \<Rightarrow> jstring \<Rightarrow> int \<Rightarrow> json" where
  "number_value neg ip fs ex =
     (let m = ip * 10 ^ length fs + digits_val fs;
          e = ex - int (length fs)
      in if m = 0 then JNum 0
         else
           (case (if 0 \<le> e then to_double (m * 10 ^ nat e) 1 else to_double m (10 ^ nat (- e))) of
              None \<Rightarrow> JInf neg
            | Some d \<Rightarrow> double_json neg d))"

definition unsigned_number :: "bool \<Rightarrow> jstring \<Rightarrow> (json \<times> jstring) option" where
  "unsigned_number neg s =
     (case int_part s of
        None \<Rightarrow> None
      | Some (ip, r1) \<Rightarrow>
          (case frac_part r1 of
             None \<Rightarrow> None
           | Some (fs, r2) \<Rightarrow>
               (case exp_part r2 of
                  None \<Rightarrow> None
                | Some (ex, r3) \<Rightarrow> Some (number_value neg ip fs ex, r3))))"

definition number :: "jstring \<Rightarrow> (json \<times> jstring) option" where
  "number s =
     (case s of
        [] \<Rightarrow> None
      | c # cs \<Rightarrow> if c = 45 then unsigned_number True cs else unsigned_number False s)"

text \<open>
  A property name that is an array index: the decimal digits, with no leading zero, of
  an integer below \<open>2 ^ 32 - 1\<close>.
\<close>

definition array_index :: "jstring \<Rightarrow> bool" where
  "array_index k =
     (k \<noteq> [] \<and> list_all is_digit k \<and> (k = [48] \<or> hd k \<noteq> 48) \<and> digits_val k < 4294967295)"

text \<open>
  CreateDataProperty on the object under construction, whose properties are listed in
  the order the host visits them: the array indices in ascending order, then the other
  names in the order they were first written. A property written twice keeps its
  position and takes the last value.
\<close>

fun obj_set :: "jstring \<Rightarrow> json \<Rightarrow> (jstring \<times> json) list \<Rightarrow> (jstring \<times> json) list" where
  "obj_set k v [] = [(k, v)]"
| "obj_set k v (p # ps) =
     (if fst p = k then (k, v) # ps
      else if array_index k \<and> (\<not> array_index (fst p) \<or> digits_val k < digits_val (fst p))
        then (k, v) # p # ps
      else p # obj_set k v ps)"

text \<open>
  The JSON grammar by recursive descent. Each function returns the value it read and
  the text after it. The first argument bounds the number of calls; \<open>JSON_parse\<close>
  starts it at the length of the text, and every call but the first follows a
  consumed character.
\<close>

fun parse_value :: "nat \<Rightarrow> jstring \<Rightarrow> (json \<times> jstring) option"
  and parse_elements :: "nat \<Rightarrow> json list \<Rightarrow> jstring \<Rightarrow> (json \<times> jstring) option"
  and parse_members :: "nat \<Rightarrow> (jstring \<times> json) list \<Rightarrow> jstring \<Rightarrow> (json \<times> jstring) option"
where
  "parse_value 0 s = None"
| "parse_value (Suc f) s =
     (case s of
        [] \<Rightarrow> None
      | c # cs \<Rightarrow>
          if c = 34 then
            (case string_body cs of None \<Rightarrow> None | Some (v, r) \<Rightarrow> Some (JStr v, r))
          else if c = 91 then
            (case skip_ws cs of
               [] \<Rightarrow> None
             | d # ds \<Rightarrow> if d = 93 then Some (JArr [], ds) else parse_elements f [] (d # ds))
          else if c = 123 then
            (case skip_ws cs of
               [] \<Rightarrow> None
             | d # ds \<Rightarrow> if d = 125 then Some (JObj [], ds) else parse_members f [] (d # ds))
          else if prefix (js ''null'') s then Some (JNull, drop 4 s)
          else if prefix (js ''true'') s then Some (JBool True, drop 4 s)
          else if prefix (js ''false'') s then Some (JBool False, drop 5 s)
          else number s)"
| "parse_elements 0 acc s = None"
| "parse_elements (Suc f) acc s =
     (case parse_value f s of
        None \<Rightarrow> None
      | Some (v, r) \<Rightarrow>
          (case skip_ws r of
             [] \<Rightarrow> None
           | d # ds \<Rightarrow>
               if d = 44 then parse_elements f (acc @ [v]) (skip_ws ds)
               else if d = 93 then Some (JArr (acc @ [v]), ds)
               else None))"
| "parse_members 0 acc s = None"
| "parse_members (Suc f) acc s =
     (case s of
        [] \<Rightarrow> None
      | q # qs \<Rightarrow>
          if q = 34 then
            (case string_body qs of
               None \<Rightarrow> None
             | Some (k, r) \<Rightarrow>
                 (case skip_ws r of
                    [] \<Rightarrow> None
                  | c # cs \<Rightarrow>
                      if c = 58 then
                        (case parse_value f (skip_ws cs) of
                           None \<Rightarrow> None
                         | Some (v, r') \<Rightarrow>
                             (case skip_ws r' of
                                [] \<Rightarrow> None
                              | d # ds \<Rightarrow>
                                  if d = 44 then parse_members f (obj_set k v acc) (skip_ws ds)
                                  else if d = 125 then Some (JObj (obj_set k v acc), ds)
                                  else None))
                      else None))
          else None)"

text \<open>
  \<^verbatim>\<open>JSON.parse(text)\<close>: one value between optional white space, and nothing else;
  anything else throws a SyntaxError.
\<close>

definition JSON_parse :: "jstring \<Rightarrow> failure + json" where
  "JSON_parse s =
     (case parse_value (length s) (skip_ws s) of
        None \<Rightarrow> Inl SyntaxError
      | Some (v, r) \<Rightarrow> if skip_ws r = [] then Inr v else Inl SyntaxError)"

text \<open>ToBoolean on a JSON value.\<close>

fun truthy :: "json \<Rightarrow> bool" where
  "truthy JNull = False"
| "truthy (JBool b) = b"
| "truthy (JNum n) = (n \<noteq> 0)"
| "truthy (JFrac m k) = True"
| "truthy (JInf neg) = True"
| "truthy (JStr s) = (s \<noteq> [])"
| "truthy (JArr xs) = True"
| "truthy (JObj kvs) = True"

section \<open>The codec of \<^verbatim>\<open>pull.js\<close>\<close>

text \<open>
  The object both functions exchange: \<^verbatim>\<open>{ data, comment }\<close>. The marker \<^verbatim>\<open>MAGIC\<close> is
  imported from \<^verbatim>\<open>common.js\<close>; every function that uses it takes it as its first
  argument.
\<close>

record parsed =
  data :: json
  comment :: jstring

subsection \<open>\<^verbatim>\<open>parseComment\<close>\<close>

text \<open>
  \<^verbatim>\<open>PARSE_REGEX\<close> is
  \<^verbatim>\<open>^(?<before>.*?)(?:<!--\s*)?(?:MAGIC)(?<data>.*)(?:MAGIC)(?:\s*-->)?(?<after>.*)$\<close>
  with the flags \<^verbatim>\<open>gs\<close>: the dot matches every code unit, and \<^verbatim>\<open>^\<close> and \<^verbatim>\<open>$\<close> are the
  two ends of the string. \<^verbatim>\<open>MAGIC\<close> is spliced into the pattern unescaped; the model
  reads it as a literal, which it is when it holds no character the pattern syntax
  gives a meaning (see \<open>marker_ok\<close>). The functions below are the backtracking matcher
  specialised to this pattern, one per piece, each trying its alternatives in the
  order the matcher does and returning the first that lets the rest of the pattern
  match.
\<close>

text \<open>
  \<^verbatim>\<open>(?:\s*-->)?(?<after>.*)$\<close>. The rest of the pattern matches whatever is left, so the
  optional group is taken when it can match at all. \<^verbatim>\<open>\s*\<close> gives back what it took one
  unit at a time, but no white space starts \<^verbatim>\<open>-->\<close>, so only its longest run can be
  followed by the arrow.
\<close>

definition match_close :: "jstring \<Rightarrow> jstring" where
  "match_close s =
     (if prefix (js ''-->'') (dropWhile is_space s) then drop 3 (dropWhile is_space s) else s)"

text \<open>
  \<^verbatim>\<open>(?<data>.*)(?:MAGIC)(?:\s*-->)?(?<after>.*)$\<close>. The greedy star takes the longest
  text first: a split further right is preferred to one here. The result is the pair
  of \<^verbatim>\<open>data\<close> and \<^verbatim>\<open>after\<close>.
\<close>

fun match_data :: "jstring \<Rightarrow> jstring \<Rightarrow> (jstring \<times> jstring) option" where
  "match_data MAGIC [] = (if prefix MAGIC [] then Some ([], match_close (drop (length MAGIC) [])) else None)"
| "match_data MAGIC (x # xs) =
     (case match_data MAGIC xs of
        Some (d, a) \<Rightarrow> Some (x # d, a)
      | None \<Rightarrow>
          if prefix MAGIC (x # xs) then Some ([], match_close (drop (length MAGIC) (x # xs)))
          else None)"

text \<open>\<^verbatim>\<open>(?:MAGIC)(?<data>.*)(?:MAGIC)(?:\s*-->)?(?<after>.*)$\<close>.\<close>

definition match_marker :: "jstring \<Rightarrow> jstring \<Rightarrow> (jstring \<times> jstring) option" where
  "match_marker MAGIC s = (if prefix MAGIC s then match_data MAGIC (drop (length MAGIC) s) else None)"

text \<open>
  \<^verbatim>\<open>\s*\<close> and the pattern from the marker on: the greedy star first takes one more
  white space, and falls back to the marker here.
\<close>

fun match_spaces :: "jstring \<Rightarrow> jstring \<Rightarrow> (jstring \<times> jstring) option" where
  "match_spaces MAGIC [] = match_marker MAGIC []"
| "match_spaces MAGIC (x # xs) =
     (if is_space x then
        (case match_spaces MAGIC xs of
           Some r \<Rightarrow> Some r
         | None \<Rightarrow> match_marker MAGIC (x # xs))
      else match_marker MAGIC (x # xs))"

text \<open>
  \<^verbatim>\<open>(?:<!--\s*)?\<close> and the pattern from the marker on: the optional group is tried
  first, and skipped when the pattern cannot match with it.
\<close>

definition match_open :: "jstring \<Rightarrow> jstring \<Rightarrow> (jstring \<times> jstring) option" where
  "match_open MAGIC s =
     (case (if prefix (js ''<!--'') s then match_spaces MAGIC (drop 4 s) else None) of
        Some r \<Rightarrow> Some r
      | None \<Rightarrow> match_marker MAGIC s)"

text \<open>
  \<^verbatim>\<open>^(?<before>.*?)\<close> and the rest: the lazy star first tries the text taken so far
  (\<open>pre\<close>), and takes one more unit when the rest cannot match here. The result is the
  triple of \<^verbatim>\<open>before\<close>, \<^verbatim>\<open>data\<close> and \<^verbatim>\<open>after\<close>.
\<close>

fun match_before :: "jstring \<Rightarrow> jstring \<Rightarrow> jstring \<Rightarrow> (jstring \<times> jstring \<times> jstring) option" where
  "match_before MAGIC pre [] =
     (case match_open MAGIC [] of Some (d, a) \<Rightarrow> Some (pre, d, a) | None \<Rightarrow> None)"
| "match_before MAGIC pre (x # xs) =
     (case match_open MAGIC (x # xs) of
        Some (d, a) \<Rightarrow> Some (pre, d, a)
      | None \<Rightarrow> match_before MAGIC (pre @ [x]) xs)"

text \<open>
  \<^verbatim>\<open>c.matchAll(PARSE_REGEX)?.next().value\<close>: the pattern is anchored at the start of
  the string, so its first match, if any, is the one at index 0.
\<close>

definition PARSE_REGEX :: "jstring \<Rightarrow> jstring \<Rightarrow> (jstring \<times> jstring \<times> jstring) option" where
  "PARSE_REGEX MAGIC c = match_before MAGIC [] c"

text \<open>
  Modelled from the spec: \<^verbatim>\<open>Try\<close> of \<^verbatim>\<open>common.js\<close>, which is not among the sources.
  The spec has \<^verbatim>\<open>decode\<close> report absent when the JSON does not parse and never throw
  to its caller, and \<^verbatim>\<open>parseComment\<close> uses the result of \<^verbatim>\<open>Try\<close> as the parsed value:
  \<^verbatim>\<open>Try(f)\<close> is the value of \<^verbatim>\<open>f()\<close>, or \<^verbatim>\<open>undefined\<close> when \<^verbatim>\<open>f\<close> throws.
\<close>

definition Try :: "failure + 'a \<Rightarrow> 'a option" where
  "Try r = (case r of Inl e \<Rightarrow> None | Inr v \<Rightarrow> Some v)"

text \<open>
  \<^verbatim>\<open>parseComment\<close>; \<open>None\<close> is its \<^verbatim>\<open>undefined\<close>. The test \<^verbatim>\<open>if (!j) return;\<close> is on the
  value \<^verbatim>\<open>Try\<close> returned: it fires when \<^verbatim>\<open>JSON.parse\<close> threw, and also when the parsed
  value is falsy.
\<close>

definition parseComment :: "jstring \<Rightarrow> jstring \<Rightarrow> parsed option" where
  "parseComment MAGIC c =
     (case PARSE_REGEX MAGIC c of
        None \<Rightarrow> None
      | Some (before, body, after) \<Rightarrow>
          (case Try (JSON_parse body) of
             None \<Rightarrow> None
           | Some j \<Rightarrow>
               if \<not> truthy j then None
               else Some \<lparr>data = j, comment = before @ after\<rparr>))"

subsection \<open>\<^verbatim>\<open>renderComment\<close>\<close>


definition renderComment :: "jstring \<Rightarrow> parsed \<Rightarrow> jstring" where
  "renderComment MAGIC c =
     comment c @ (if length (comment c) = 0 \<or> ends_with_space (comment c) then [] else js ''\<newline>'')
       @ js ''<!-- '' @ MAGIC @ JSON_stringify (data c) @ MAGIC @ js '' -->''"

text \<open>A marker for the examples.\<close>

definition sample_MAGIC :: jstring where
  "sample_MAGIC = js ''__tellrequest__''"

section \<open>The collaborators of \<^verbatim>\<open>App\<close>\<close>

text \<open>
  \<^verbatim>\<open>pull.js\<close> imports the annotation model (\<^verbatim>\<open>model/model.js\<close>), the widgets
  (\<^verbatim>\<open>ui/ui.js\<close>), the network client (\<^verbatim>\<open>github.js\<close>), the configuration lookup
  (\<^verbatim>\<open>config.js\<close>) and helpers (\<^verbatim>\<open>common.js\<close>). None of them is among the sources. Each
  is modelled here from what the spec says of it, as far as \<^verbatim>\<open>App\<close> uses it.
\<close>

subsection \<open>Conversions of the host language\<close>

text \<open>
  ToString, as a template literal and \<^verbatim>\<open>parseInt\<close> apply it. A number is written by
  Number::toString, in exponent form from \<^verbatim>\<open>1e21\<close> on. Array elements are joined by
  commas, with \<^verbatim>\<open>null\<close> as the empty string; an object is \<^verbatim>\<open>[object Object]\<close>.
\<close>

fun ToString :: "json \<Rightarrow> jstring" where
  "ToString JNull = js ''null''"
| "ToString (JBool b) = (if b then js ''true'' else js ''false'')"
| "ToString (JNum n) = Integer_toString n"
| "ToString (JFrac m k) = Number_toString (m < 0) (nat \<bar>m\<bar>) (10 ^ k)"
| "ToString (JInf neg) = (if neg then js ''-Infinity'' else js ''Infinity'')"
| "ToString (JStr s) = s"
| "ToString (JArr xs) = join [44] (map (\<lambda>x. if x = JNull then [] else ToString x) xs)"
| "ToString (JObj kvs) = js ''[object Object]''"

text \<open>
  The numbers \<^verbatim>\<open>parseInt\<close> returns and the counter of \<^verbatim>\<open>Ids\<close> holds: \<^verbatim>\<open>NaN\<close>, an
  infinity (negative when the flag holds), or a double whose value is an integer.
\<close>

datatype number = NaN | Infinite bool | Integer int

subsection \<open>Annotations and the Presentation\<close>

text \<open>
  Modelled from the spec: an annotation is \<^verbatim>\<open>{ id, context: {file, lineNo}, text }\<close>
  (the \<^verbatim>\<open>Comment\<close> of \<^verbatim>\<open>model.js\<close>).
\<close>

record visual =
  vid :: json
  vfile :: json
  vline :: json
  vtext :: jstring

text \<open>
  The three listeners \<^verbatim>\<open>pull.js\<close> puts on a Presentation's \<^verbatim>\<open>change\<close> event:
  \<^verbatim>\<open>e => this.onPresentationChange(e)\<close>, \<^verbatim>\<open>e => this.maybePersistOnPresentationChange(e)\<close>
  and the one-shot listener of \<^verbatim>\<open>Util.waitEvent\<close>.
\<close>

datatype listener = Reconcile | MaybePersist | WaitEvent

text \<open>The detail of a change event, without the Presentation itself.\<close>

record change =
  added :: "visual list"
  removed :: "visual list"

text \<open>
  Modelled from the spec: the Presentation of \<^verbatim>\<open>model.js\<close> is an ordered sequence of
  annotations with an event target; listeners run in the order they were added.
\<close>

record presentation =
  visuals :: "visual list"
  listeners :: "listener list"

subsection \<open>The page\<close>

text \<open>
  The elements of the document that the selectors of \<^verbatim>\<open>pull.js\<close> can tell apart, in
  document order: the value of \<^verbatim>\<open>data-visual-id\<close>, the class list, for a row of a diff
  table the \<^verbatim>\<open>data-line-number\<close> of its cell, and for the root of a comment widget the
  text it shows.
\<close>

record element =
  visual_id :: "jstring option"
  classes :: "jstring list"
  line_number :: "jstring option"
  shown :: jstring

text \<open>Modelled from the spec: the side list of \<^verbatim>\<open>SidebarUI\<close> and its selected entry.\<close>

record sidebar =
  entries :: "visual list"
  selected_entry :: "json option"

text \<open>
  Modelled from the spec: the Persistence Gateway of \<^verbatim>\<open>github.js\<close>, one text field that
  can be fetched and replaced; either call rejects when the host cannot be reached.
\<close>

record github =
  body :: jstring
  reachable :: bool

text \<open>
  What \<^verbatim>\<open>App\<close> reads from its imports and its engine and never changes: the
  configuration values \<^verbatim>\<open>getConfig\<close> yields, the two conversions of \<^verbatim>\<open>model.js\<close> between
  a payload and a sequence of annotations, whose payload shape the sources do not fix,
  and the order in which the engine's \<^verbatim>\<open>sort\<close> leaves an array of numbers when the
  comparator \<^verbatim>\<open>(a, b) => b - a\<close> is not consistent on it, which the language standard
  leaves to the implementation.
\<close>

record env =
  saveFrequency :: jstring
  openFrequency :: jstring
  visuals_of :: "json \<Rightarrow> failure + visual list"
  payload_of :: "visual list \<Rightarrow> json"
  sort_order :: "number list \<Rightarrow> number list"

text \<open>
  The state an \<^verbatim>\<open>App\<close> works on: its Presentation, the page, the side list, the
  counter of \<^verbatim>\<open>Ids\<close>, the remote field, every listener call made so far with its
  event, the \<^verbatim>\<open>select\<close> events dispatched on \<^verbatim>\<open>this.events\<close>, and the rejections of
  promises nobody awaits.
\<close>

record app =
  presentation :: presentation
  document :: "element list"
  sidebar :: sidebar
  ids_counter :: number
  github :: github
  delivered :: "(listener \<times> change) list"
  select_events :: "json list"
  unhandled :: "failure list"

text \<open>
  An async function is run to its end in one piece; it settles with a new state, or
  rejects with a failure and the state it had reached.
\<close>

type_synonym outcome = "failure \<times> app + app"

subsection \<open>Queries and updates of the page\<close>

text \<open>\<^verbatim>\<open>[data-visual-id="${id}"].visual-root\<close>\<close>

definition is_visual_root :: "json \<Rightarrow> element \<Rightarrow> bool" where
  "is_visual_root i e =
     (visual_id e = Some (ToString i) \<and> js ''visual-root'' \<in> set (classes e))"

text \<open>\<^verbatim>\<open>.${MAGIC}.visual-root.selected\<close>\<close>

definition is_selected_root :: "jstring \<Rightarrow> element \<Rightarrow> bool" where
  "is_selected_root MAGIC e =
     (MAGIC \<in> set (classes e) \<and> js ''visual-root'' \<in> set (classes e)
        \<and> js ''selected'' \<in> set (classes e))"

text \<open>\<^verbatim>\<open>div.file .diff-table tr:has(td[data-line-number="${lineNo}"])\<close>\<close>

definition is_row :: "json \<Rightarrow> element \<Rightarrow> bool" where
  "is_row l e = (line_number e = Some (ToString l))"

text \<open>\<^verbatim>\<open>document.querySelector(sel)?.remove()\<close>: the first match leaves the document.\<close>

fun remove_first :: "('a \<Rightarrow> bool) \<Rightarrow> 'a list \<Rightarrow> 'a list" where
  "remove_first P [] = []"
| "remove_first P (x # xs) = (if P x then xs else x # remove_first P xs)"

text \<open>An update of the first match, where there is one.\<close>

fun update_first :: "('a \<Rightarrow> bool) \<Rightarrow> ('a \<Rightarrow> 'a) \<Rightarrow> 'a list \<Rightarrow> 'a list" where
  "update_first P f [] = []"
| "update_first P f (x # xs) = (if P x then f x # xs else x # update_first P f xs)"

text \<open>\<^verbatim>\<open>tr.after(node)\<close> for the first match \<^verbatim>\<open>tr\<close>; \<open>None\<close> when \<^verbatim>\<open>tr\<close> is \<^verbatim>\<open>null\<close>.\<close>

fun insert_after_first :: "('a \<Rightarrow> bool) \<Rightarrow> 'a \<Rightarrow> 'a list \<Rightarrow> 'a list option" where
  "insert_after_first P n [] = None"
| "insert_after_first P n (x # xs) =
     (if P x then Some (x # n # xs)
      else (case insert_after_first P n xs of None \<Rightarrow> None | Some ys \<Rightarrow> Some (x # ys)))"

text \<open>\<^verbatim>\<open>classList.add\<close> and \<^verbatim>\<open>classList.remove\<close>.\<close>

definition add_class :: "jstring \<Rightarrow> element \<Rightarrow> element" where
  "add_class c e = e\<lparr>classes := (if c \<in> set (classes e) then classes e else classes e @ [c])\<rparr>"

definition remove_class :: "jstring \<Rightarrow> element \<Rightarrow> element" where
  "remove_class c e = e\<lparr>classes := filter (\<lambda>d. d \<noteq> c) (classes e)\<rparr>"

text \<open>
  Modelled from the spec: the root element of a new \<^verbatim>\<open>CommentUI\<close> for an annotation, a
  view node that \<^verbatim>\<open>findVisualUI\<close> finds by the annotation's id and the selector of
  \<^verbatim>\<open>selectVisual\<close> by its classes.
\<close>

definition comment_root :: "jstring \<Rightarrow> visual \<Rightarrow> element" where
  "comment_root MAGIC x =
     \<lparr>visual_id = Some (ToString (vid x)), classes = [MAGIC, js ''visual-root''],
      line_number = None, shown = vtext x\<rparr>"

subsection \<open>The side list and the gateway\<close>

definition sidebar_remove :: "json \<Rightarrow> sidebar \<Rightarrow> sidebar" where
  "sidebar_remove i sb = sb\<lparr>entries := filter (\<lambda>x. vid x \<noteq> i) (entries sb)\<rparr>"

definition sidebar_add :: "visual \<Rightarrow> nat \<Rightarrow> sidebar \<Rightarrow> sidebar" where
  "sidebar_add x k sb = sb\<lparr>entries := take k (entries sb) @ [x] @ drop k (entries sb)\<rparr>"

definition sidebar_select :: "json \<Rightarrow> sidebar \<Rightarrow> sidebar" where
  "sidebar_select i sb = sb\<lparr>selected_entry := Some i\<rparr>"

text \<open>\<^verbatim>\<open>(await fetchIssueEditForm(pullId)).editForm.querySelector('textarea').value\<close>\<close>

definition fetchIssueEditForm :: "github \<Rightarrow> failure + jstring" where
  "fetchIssueEditForm g = (if reachable g then Inr (body g) else Inl NetworkError)"

text \<open>\<^verbatim>\<open>updateIssuePart({ part: 'body', text })\<close>\<close>

definition updateIssuePart :: "github \<Rightarrow> jstring \<Rightarrow> failure + github" where
  "updateIssuePart g t = (if reachable g then Inr (g\<lparr>body := t\<rparr>) else Inl NetworkError)"

section \<open>\<^verbatim>\<open>App\<close>\<close>

text \<open>\<^verbatim>\<open>findVisualUI\<close>: the widget of the first element the selector matches.\<close>

definition App_findVisualUI :: "app \<Rightarrow> json \<Rightarrow> element option" where
  "App_findVisualUI a i = List.find (is_visual_root i) (document a)"

text \<open>
  The last loop of \<^verbatim>\<open>onPresentationChange\<close>: an annotation that has a widget gets its
  text set; any other gets a new widget after the first row of its line. Where no
  row has that line, \<^verbatim>\<open>tr\<close> is \<^verbatim>\<open>null\<close> and \<^verbatim>\<open>tr.ancestors()\<close> throws: the loop ends
  there, with what it has done.
\<close>

fun render_added :: "jstring \<Rightarrow> visual list \<Rightarrow> element list \<Rightarrow> element list \<times> failure option" where
  "render_added MAGIC [] doc = (doc, None)"
| "render_added MAGIC (x # xs) doc =
     (case List.find (is_visual_root (vid x)) doc of
        Some e \<Rightarrow>
          render_added MAGIC xs (update_first (is_visual_root (vid x)) (\<lambda>e. e\<lparr>shown := vtext x\<rparr>) doc)
      | None \<Rightarrow>
          (case insert_after_first (is_row (vline x)) (comment_root MAGIC x) doc of
             None \<Rightarrow> (doc, Some TypeError)
           | Some doc' \<Rightarrow> render_added MAGIC xs doc'))"

text \<open>Modelled from the spec: \<^verbatim>\<open>presentation.indexOf({ id })\<close>, \<open>-1\<close> as the length here.\<close>

fun index_of :: "json \<Rightarrow> visual list \<Rightarrow> nat" where
  "index_of i [] = 0"
| "index_of i (x # xs) = (if vid x = i then 0 else Suc (index_of i xs))"

text \<open>
  \<^verbatim>\<open>onPresentationChange\<close>: the four loops in their order. The function is async and
  holds no \<^verbatim>\<open>await\<close>, so it runs to its end inside the dispatch; what it throws is
  the rejection of a promise nobody reads.
\<close>

definition App_onPresentationChange :: "jstring \<Rightarrow> presentation \<Rightarrow> change \<Rightarrow> app \<Rightarrow> app" where
  "App_onPresentationChange MAGIC p ev a =
     (let sb1 = fold (\<lambda>x. sidebar_remove (vid x)) (removed ev) (sidebar a);
          doc1 = fold (\<lambda>x. remove_first (is_visual_root (vid x))) (removed ev) (document a);
          sb2 = fold (\<lambda>x. sidebar_add x (index_of (vid x) (visuals p))) (added ev) sb1;
          (doc2, err) = render_added MAGIC (added ev) doc1
      in a\<lparr>sidebar := sb2, document := doc2,
            unhandled := unhandled a @ (case err of None \<Rightarrow> [] | Some e \<Rightarrow> [e])\<rparr>)"

text \<open>
  One listener called with an event. \<^verbatim>\<open>maybePersistOnPresentationChange\<close> stops at
  its first \<^verbatim>\<open>await\<close>; what follows it is \<open>App_maybePersistOnPresentationChange\<close> below.
\<close>

fun deliver :: "jstring \<Rightarrow> presentation \<Rightarrow> change \<Rightarrow> listener \<Rightarrow> app \<Rightarrow> app" where
  "deliver MAGIC p ev Reconcile a =
     App_onPresentationChange MAGIC p ev (a\<lparr>delivered := delivered a @ [(Reconcile, ev)]\<rparr>)"
| "deliver MAGIC p ev MaybePersist a = a\<lparr>delivered := delivered a @ [(MaybePersist, ev)]\<rparr>"
| "deliver MAGIC p ev WaitEvent a = a\<lparr>delivered := delivered a @ [(WaitEvent, ev)]\<rparr>"

text \<open>
  Modelled from the spec: a change notification goes to every listener of the
  Presentation, in the order they were added, before the call that caused it returns.
  The listener of \<^verbatim>\<open>Util.waitEvent\<close> leaves once it has run.
\<close>

definition dispatch :: "jstring \<Rightarrow> presentation \<Rightarrow> change \<Rightarrow> app \<Rightarrow> presentation \<times> app" where
  "dispatch MAGIC p ev a =
     (p\<lparr>listeners := filter (\<lambda>l. l \<noteq> WaitEvent) (listeners p)\<rparr>,
      fold (deliver MAGIC p ev) (listeners p) a)"

text \<open>
  Modelled from the spec: the operations of the Presentation. \<^verbatim>\<open>removeAllVisuals\<close>
  removes every annotation and emits one notification with all of them removed.
\<close>

definition Presentation_removeAllVisuals :: "jstring \<Rightarrow> presentation \<Rightarrow> app \<Rightarrow> presentation \<times> app" where
  "Presentation_removeAllVisuals MAGIC p a =
     dispatch MAGIC (p\<lparr>visuals := []\<rparr>) \<lparr>added = [], removed = visuals p\<rparr> a"

text \<open>
  \<^verbatim>\<open>addOrReplaceVisual\<close>: an annotation with the id has its text overwritten in place,
  otherwise the new one is appended; one notification with it added.
\<close>

definition Presentation_addOrReplaceVisual ::
  "jstring \<Rightarrow> visual \<Rightarrow> presentation \<Rightarrow> app \<Rightarrow> presentation \<times> app" where
  "Presentation_addOrReplaceVisual MAGIC v p a =
     dispatch MAGIC
       (p\<lparr>visuals :=
            (if \<exists>x\<in>set (visuals p). vid x = vid v
             then map (\<lambda>x. if vid x = vid v then x\<lparr>vtext := vtext v\<rparr> else x) (visuals p)
             else visuals p @ [v])\<rparr>)
       \<lparr>added = [v], removed = []\<rparr> a"

text \<open>
  \<^verbatim>\<open>removeVisual\<close>: removes the annotation with the id and emits one notification
  with it removed; nothing happens, and nothing is emitted, when there is none.
\<close>

definition Presentation_removeVisual ::
  "jstring \<Rightarrow> json \<Rightarrow> presentation \<Rightarrow> app \<Rightarrow> presentation \<times> app" where
  "Presentation_removeVisual MAGIC i p a =
     (case List.find (\<lambda>x. vid x = i) (visuals p) of
        None \<Rightarrow> (p, a)
      | Some v \<Rightarrow>
          dispatch MAGIC (p\<lparr>visuals := remove_first (\<lambda>x. vid x = i) (visuals p)\<rparr>)
            \<lparr>added = [], removed = [v]\<rparr> a)"

text \<open>
  \<^verbatim>\<open>moveVisual\<close>: takes the annotation out and puts it back at the position, clamped
  to the range from 0 to the length; it emits no notification.
\<close>

definition Presentation_moveVisual ::
  "json \<Rightarrow> int \<Rightarrow> presentation \<Rightarrow> app \<Rightarrow> presentation \<times> app" where
  "Presentation_moveVisual i pos p a =
     (case List.find (\<lambda>x. vid x = i) (visuals p) of
        None \<Rightarrow> (p, a)
      | Some v \<Rightarrow>
          (let k = nat (max 0 (min pos (int (length (visuals p)))));
               others = remove_first (\<lambda>x. vid x = i) (visuals p)
           in (p\<lparr>visuals := take k others @ [v] @ drop k others\<rparr>, a)))"

text \<open>
  \<^verbatim>\<open>import\<close>: reads the payload into annotations, replaces the sequence and emits one
  notification with all of them added.
\<close>

definition Presentation_import ::
  "jstring \<Rightarrow> env \<Rightarrow> json \<Rightarrow> presentation \<Rightarrow> app \<Rightarrow> failure \<times> app + presentation \<times> app" where
  "Presentation_import MAGIC E payload p a =
     (case visuals_of E payload of
        Inl e \<Rightarrow> Inl (e, a)
      | Inr vs \<Rightarrow> Inr (dispatch MAGIC (p\<lparr>visuals := vs\<rparr>) \<lparr>added = vs, removed = []\<rparr> a))"

definition Presentation_export :: "env \<Rightarrow> presentation \<Rightarrow> json" where
  "Presentation_export E p = payload_of E (visuals p)"

text \<open>\<^verbatim>\<open>export() { return this.presentation.export(); }\<close>\<close>

definition App_export :: "env \<Rightarrow> app \<Rightarrow> json" where
  "App_export E a = Presentation_export E (presentation a)"

text \<open>
  \<^verbatim>\<open>persist\<close>: fetch the field, parse it or fall back to the whole text with the
  payload \<^verbatim>\<open>{}\<close>, put the export in place of the payload, render, write.
\<close>

definition App_persist :: "jstring \<Rightarrow> env \<Rightarrow> app \<Rightarrow> outcome" where
  "App_persist MAGIC E a =
     (case fetchIssueEditForm (github a) of
        Inl e \<Rightarrow> Inl (e, a)
      | Inr currentValue \<Rightarrow>
          (let currentParsed =
                 (case parseComment MAGIC currentValue of
                    Some r \<Rightarrow> r
                  | None \<Rightarrow> \<lparr>data = JObj [], comment = currentValue\<rparr>);
               currentParsed' = currentParsed\<lparr>data := App_export E a\<rparr>
           in (case updateIssuePart (github a) (renderComment MAGIC currentParsed') of
                 Inl e \<Rightarrow> Inl (e, a)
               | Inr g \<Rightarrow> Inr (a\<lparr>github := g\<rparr>))))"

text \<open>What \<^verbatim>\<open>maybePersistOnPresentationChange\<close> does after its listener call.\<close>

definition App_maybePersistOnPresentationChange :: "jstring \<Rightarrow> env \<Rightarrow> app \<Rightarrow> outcome" where
  "App_maybePersistOnPresentationChange MAGIC E a =
     (if saveFrequency E = js ''auto'' then App_persist MAGIC E a else Inr a)"

subsection \<open>\<^verbatim>\<open>import\<close>\<close>

text \<open>What \<^verbatim>\<open>flatMap\<close> adds for one result of its callback: an array is spread.\<close>

definition spread :: "json \<Rightarrow> json list" where
  "spread r = (case r of JArr ys \<Rightarrow> ys | _ \<Rightarrow> [r])"

text \<open>
  \<^verbatim>\<open>getAllIds\<close>, with its two \<^verbatim>\<open>flatMap\<close> loops: \<open>flatMap_getAllIds\<close> is
  \<^verbatim>\<open>v.flatMap(getAllIds)\<close>, and \<open>flatMap_values\<close> is \<^verbatim>\<open>Object.values(o).flatMap(v => ...)\<close>
  on the values of \<^verbatim>\<open>o\<close>. Of the values \<^verbatim>\<open>JSON.parse\<close> makes only an object can have
  the property \<^verbatim>\<open>id\<close>. A truthy \<^verbatim>\<open>id\<close> is returned as it is, and the object that has it
  is not searched. \<^verbatim>\<open>Object.values\<close> throws on \<^verbatim>\<open>null\<close>, gives the elements of an
  array and the properties of an object, nothing for a number or a boolean, and for a
  string its characters, which are strings, for which the callback returns \<^verbatim>\<open>[]\<close>.
  \<^verbatim>\<open>typeof null\<close> is \<^verbatim>\<open>'object'\<close>.
\<close>

fun getAllIds :: "json \<Rightarrow> failure + json"
  and flatMap_getAllIds :: "json list \<Rightarrow> failure + json list"
  and flatMap_values :: "json list \<Rightarrow> failure + json list"
where
  "getAllIds JNull = Inl TypeError"
| "getAllIds (JBool b) = Inr (JArr [])"
| "getAllIds (JNum n) = Inr (JArr [])"
| "getAllIds (JFrac m k) = Inr (JArr [])"
| "getAllIds (JInf neg) = Inr (JArr [])"
| "getAllIds (JStr s) = Inr (JArr [])"
| "getAllIds (JArr xs) =
     (case flatMap_values xs of Inl e \<Rightarrow> Inl e | Inr r \<Rightarrow> Inr (JArr r))"
| "getAllIds (JObj kvs) =
     (if (case map_of kvs (js ''id'') of Some i \<Rightarrow> truthy i | None \<Rightarrow> False)
      then Inr (the (map_of kvs (js ''id'')))
      else (case flatMap_values (map snd kvs) of Inl e \<Rightarrow> Inl e | Inr r \<Rightarrow> Inr (JArr r)))"
| "flatMap_getAllIds [] = Inr []"
| "flatMap_getAllIds (y # ys) =
     (case getAllIds y of
        Inl e \<Rightarrow> Inl e
      | Inr r \<Rightarrow>
          (case flatMap_getAllIds ys of Inl e \<Rightarrow> Inl e | Inr rs \<Rightarrow> Inr (spread r @ rs)))"
| "flatMap_values [] = Inr []"
| "flatMap_values (v # vs) =
     (case (case v of
              JArr ys \<Rightarrow> flatMap_getAllIds ys
            | JObj kvs \<Rightarrow> (case getAllIds v of Inl e \<Rightarrow> Inl e | Inr r \<Rightarrow> Inr (spread r))
            | JNull \<Rightarrow> (case getAllIds v of Inl e \<Rightarrow> Inl e | Inr r \<Rightarrow> Inr (spread r))
            | _ \<Rightarrow> Inr [])
      of
        Inl e \<Rightarrow> Inl e
      | Inr r \<Rightarrow> (case flatMap_values vs of Inl e \<Rightarrow> Inl e | Inr rs \<Rightarrow> Inr (r @ rs)))"

text \<open>
  \<^verbatim>\<open>parseInt(x)\<close> with no radix: ToString, leading white space, a sign, the prefix
  \<^verbatim>\<open>0x\<close> for radix 16, then the longest run of digits; \<^verbatim>\<open>NaN\<close> when there is no digit.
  The result is the double nearest to the integer the digits write, an infinity when
  that is too large. (For more than 20 decimal digits the standard lets an engine read
  the digits after the 20th as zeros; here every digit counts.)
\<close>

definition hex_digits_val :: "jstring \<Rightarrow> nat" where
  "hex_digits_val ds = foldl (\<lambda>a d. 16 * a + (case hex_val d of Some h \<Rightarrow> h | None \<Rightarrow> 0)) 0 ds"

definition parseInt_digits :: "jstring \<Rightarrow> nat option" where
  "parseInt_digits s =
     (if prefix (js ''0x'') s \<or> prefix (js ''0X'') s then
        (if takeWhile (\<lambda>c. hex_val c \<noteq> None) (drop 2 s) = [] then None
         else Some (hex_digits_val (takeWhile (\<lambda>c. hex_val c \<noteq> None) (drop 2 s))))
      else
        (if takeWhile is_digit s = [] then None
         else Some (digits_val (takeWhile is_digit s))))"

text \<open>The double nearest to the integer \<open>n\<close>, negated when \<open>neg\<close> holds.\<close>

definition integer_number :: "bool \<Rightarrow> nat \<Rightarrow> number" where
  "integer_number neg n =
     (if n = 0 then Integer 0
      else
        (case to_double n 1 of
           None \<Rightarrow> Infinite neg
         | Some (m, e) \<Rightarrow>
             (let v = (if 0 \<le> e then int m * 2 ^ nat e else int (m div 2 ^ nat (- e)))
              in Integer (if neg then - v else v))))"

definition parseInt_string :: "jstring \<Rightarrow> number" where
  "parseInt_string s =
     (case dropWhile is_space s of
        [] \<Rightarrow> NaN
      | c # cs \<Rightarrow>
          if c = 45 then (case parseInt_digits cs of None \<Rightarrow> NaN | Some n \<Rightarrow> integer_number True n)
          else if c = 43 then
            (case parseInt_digits cs of None \<Rightarrow> NaN | Some n \<Rightarrow> integer_number False n)
          else
            (case parseInt_digits (c # cs) of None \<Rightarrow> NaN | Some n \<Rightarrow> integer_number False n))"

definition parseInt :: "json \<Rightarrow> number" where
  "parseInt x = parseInt_string (ToString x)"

text \<open>
  The comparator \<^verbatim>\<open>(a, b) => b - a\<close> as \<^verbatim>\<open>sort\<close> reads it: \<open>precedes a b\<close> holds when
  \<^verbatim>\<open>b - a\<close> is negative, so that \<open>a\<close> is to come before \<open>b\<close>. A difference that is
  \<^verbatim>\<open>NaN\<close>, as with a \<^verbatim>\<open>NaN\<close> on either side or with two infinities of one sign, counts
  as zero.
\<close>

fun precedes :: "number \<Rightarrow> number \<Rightarrow> bool" where
  "precedes (Integer x) (Integer y) = (y < x)"
| "precedes (Infinite na) (Infinite nb) = (\<not> na \<and> nb)"
| "precedes (Infinite na) (Integer y) = (\<not> na)"
| "precedes (Integer x) (Infinite nb) = nb"
| "precedes a b = False"

text \<open>Descending order, for an array without \<^verbatim>\<open>NaN\<close>.\<close>

definition descending :: "number list \<Rightarrow> number list" where
  "descending ns =
     filter (\<lambda>x. x = Infinite False) ns
       @ map Integer (rev (sort (concat (map (\<lambda>x. case x of Integer n \<Rightarrow> [n] | _ \<Rightarrow> []) ns))))
       @ filter (\<lambda>x. x = Infinite True) ns"

text \<open>
  \<^verbatim>\<open>.sort((a, b) => b - a)\<close>. Without a \<^verbatim>\<open>NaN\<close> in the array the order is descending.
  With a \<^verbatim>\<open>NaN\<close>, when no element is to come before another the stable sort changes
  nothing; otherwise the comparator is not consistent, and the order is the engine's.
\<close>

definition sort_descending :: "env \<Rightarrow> number list \<Rightarrow> number list" where
  "sort_descending E ns =
     (if NaN \<notin> set ns then descending ns
      else if list_all (\<lambda>a. list_all (\<lambda>b. \<not> precedes a b) ns) ns then ns
      else sort_order E ns)"

text \<open>
  Modelled from the spec: \<^verbatim>\<open>toArray\<close> and \<^verbatim>\<open>first\<close>, which \<^verbatim>\<open>common.js\<close> adds to arrays:
  the array itself, and its first element or \<^verbatim>\<open>undefined\<close>. \<^verbatim>\<open>first() || 1\<close> is 1 for
  \<^verbatim>\<open>undefined\<close>, \<^verbatim>\<open>NaN\<close> and 0.
\<close>

definition first_or_1 :: "number list \<Rightarrow> number" where
  "first_or_1 ns =
     (case ns of
        [] \<Rightarrow> Integer 1
      | n # _ \<Rightarrow> if n = NaN \<or> n = Integer 0 then Integer 1 else n)"

text \<open>
  The constant \<^verbatim>\<open>maxId\<close> of \<^verbatim>\<open>import\<close>. \<^verbatim>\<open>getAllIds(data)\<close> is an array, or the \<^verbatim>\<open>id\<close>
  of \<^verbatim>\<open>data\<close> itself; only an array has \<^verbatim>\<open>map\<close>.
\<close>

definition maxId :: "env \<Rightarrow> json \<Rightarrow> failure + number" where
  "maxId E payload =
     (case getAllIds payload of
        Inl e \<Rightarrow> Inl e
      | Inr (JArr ids) \<Rightarrow> Inr (first_or_1 (sort_descending E (map parseInt ids)))
      | Inr _ \<Rightarrow> Inl TypeError)"

text \<open>
  The first statement of \<^verbatim>\<open>import\<close>: with a Presentation that is not empty,
  \<^verbatim>\<open>Util.waitEvent\<close> puts its listener on the \<^verbatim>\<open>change\<close> event, \<^verbatim>\<open>removeAllVisuals\<close> is
  called, and \<^verbatim>\<open>await cleanupDone\<close> goes on once that listener has run. Modelled from
  the spec: the promise of \<^verbatim>\<open>Util.waitEvent\<close> settles when the next event of the type is
  delivered.
\<close>

definition App_import_cleanup :: "jstring \<Rightarrow> app \<Rightarrow> outcome" where
  "App_import_cleanup MAGIC a =
     (if length (visuals (presentation a)) \<noteq> 0 then
        (let p0 = (presentation a)\<lparr>listeners := listeners (presentation a) @ [WaitEvent]\<rparr>;
             (p1, a1) = Presentation_removeAllVisuals MAGIC p0 a;
             a2 = a1\<lparr>presentation := p1\<rparr>
         in if list_ex (\<lambda>d. fst d = WaitEvent) (drop (length (delivered a)) (delivered a2))
            then Inr a2 else Inl (NeverSettles, a2))
      else Inr a)"

text \<open>
  The rest of \<^verbatim>\<open>import\<close>, from \<^verbatim>\<open>Ids.initId(maxId)\<close> on. Modelled from the spec:
  \<^verbatim>\<open>initId(seed)\<close> sets the counter to the seed, and a new Presentation is empty and
  has no listener.
\<close>

definition App_import_install :: "jstring \<Rightarrow> env \<Rightarrow> number \<Rightarrow> json \<Rightarrow> app \<Rightarrow> outcome" where
  "App_import_install MAGIC E seed payload a =
     (let a1 = a\<lparr>ids_counter := seed\<rparr>;
          p = \<lparr>visuals = [], listeners = []\<rparr>;
          p1 = p\<lparr>listeners := listeners p @ [Reconcile]\<rparr>
      in (case Presentation_import MAGIC E payload p1 a1 of
            Inl r \<Rightarrow> Inl r
          | Inr (p2, a2) \<Rightarrow>
              Inr (a2\<lparr>presentation := p2\<lparr>listeners := listeners p2 @ [MaybePersist]\<rparr>\<rparr>)))"

definition App_import :: "jstring \<Rightarrow> env \<Rightarrow> app \<Rightarrow> json \<Rightarrow> outcome" where
  "App_import MAGIC E a payload =
     (case App_import_cleanup MAGIC a of
        Inl r \<Rightarrow> Inl r
      | Inr a1 \<Rightarrow>
          (case maxId E payload of
             Inl e \<Rightarrow> Inl (e, a1)
           | Inr seed \<Rightarrow> App_import_install MAGIC E seed payload a1))"

subsection \<open>\<^verbatim>\<open>onSettingsLoad\<close>, \<^verbatim>\<open>selectVisual\<close> and the constructor\<close>

text \<open>
  \<^verbatim>\<open>onSettingsLoad\<close>. \<^verbatim>\<open>parsed.data\<close> is read from whatever \<^verbatim>\<open>parseComment\<close> returned,
  and throws on \<^verbatim>\<open>undefined\<close>. The call of \<^verbatim>\<open>import\<close> is not awaited: when it rejects,
  nobody handles the rejection and \<^verbatim>\<open>onSettingsLoad\<close> itself is fulfilled.
\<close>

definition App_onSettingsLoad :: "jstring \<Rightarrow> env \<Rightarrow> app \<Rightarrow> outcome" where
  "App_onSettingsLoad MAGIC E a =
     (case fetchIssueEditForm (github a) of
        Inl e \<Rightarrow> Inl (e, a)
      | Inr currentValue \<Rightarrow>
          (case parseComment MAGIC currentValue of
             None \<Rightarrow> Inl (TypeError, a)
           | Some parsed \<Rightarrow>
               (case App_import MAGIC E a (data parsed) of
                  Inl (e, a') \<Rightarrow> Inr (a'\<lparr>unhandled := unhandled a' @ [e]\<rparr>)
                | Inr a' \<Rightarrow> Inr a')))"

text \<open>\<^verbatim>\<open>onSelect\<close>, the only listener of the \<^verbatim>\<open>select\<close> event.\<close>

definition App_onSelect :: "json \<Rightarrow> app \<Rightarrow> app" where
  "App_onSelect i a = a\<lparr>sidebar := sidebar_select i (sidebar a)\<rparr>"

text \<open>
  \<^verbatim>\<open>selectVisual\<close>. Its first line reads \<^verbatim>\<open>rootElem\<close> of \<^verbatim>\<open>findVisualUI(id)\<close> with no
  \<^verbatim>\<open>?.\<close> and throws when the id has no widget. Modelled from the spec: the
  \<^verbatim>\<open>rootElem\<close> of a widget is the element \<^verbatim>\<open>findVisualUI\<close> found it by.
\<close>

definition App_selectVisual :: "jstring \<Rightarrow> app \<Rightarrow> json \<Rightarrow> outcome" where
  "App_selectVisual MAGIC a i =
     (case App_findVisualUI a i of
        None \<Rightarrow> Inl (TypeError, a)
      | Some e \<Rightarrow>
          if js ''selected'' \<in> set (classes e) then Inr a
          else
            (let doc1 = map (\<lambda>x. if is_selected_root MAGIC x then remove_class (js ''selected'') x else x)
                          (document a);
                 doc2 = update_first (is_visual_root i) (add_class (js ''selected'')) doc1
             in Inr (App_onSelect i
                       (a\<lparr>document := doc2, select_events := select_events a @ [i]\<rparr>))))"

text \<open>
  The constructor: an empty Presentation with the two listeners, in this order.
\<close>

definition App_constructor :: "github \<Rightarrow> element list \<Rightarrow> int \<Rightarrow> app" where
  "App_constructor g doc counter =
     \<lparr>presentation = \<lparr>visuals = [], listeners = [Reconcile, MaybePersist]\<rparr>,
      document = doc,
      sidebar = \<lparr>entries = [], selected_entry = None\<rparr>,
      ids_counter = Integer counter,
      github = g,
      delivered = [],
      select_events = [],
      unhandled = []\<rparr>"

section \<open>Examples of the imports\<close>

text \<open>
  For the examples: the payload of the spec's scenario, \<^verbatim>\<open>{ comments: [ ... ] }\<close> with
  one record \<^verbatim>\<open>{ id, context: { file, lineNo }, text }\<close> for every annotation, and an
  \<open>env\<close> that saves and opens automatically.
\<close>

definition visual_record :: "visual \<Rightarrow> json" where
  "visual_record x =
     JObj [(js ''id'', vid x),
           (js ''context'', JObj [(js ''file'', vfile x), (js ''lineNo'', vline x)]),
           (js ''text'', JStr (vtext x))]"

definition sample_payload_of :: "visual list \<Rightarrow> json" where
  "sample_payload_of vs = JObj [(js ''comments'', JArr (map visual_record vs))]"

definition record_visual :: "json \<Rightarrow> visual option" where
  "record_visual r =
     (case r of
        JObj [(k1, i), (k2, JObj [(k3, f), (k4, l)]), (k5, JStr t)] \<Rightarrow>
          if k1 = js ''id'' \<and> k2 = js ''context'' \<and> k3 = js ''file'' \<and> k4 = js ''lineNo''
             \<and> k5 = js ''text''
          then Some \<lparr>vid = i, vfile = f, vline = l, vtext = t\<rparr> else None
      | _ \<Rightarrow> None)"

definition sample_visuals_of :: "json \<Rightarrow> failure + visual list" where
  "sample_visuals_of payload =
     (case payload of
        JObj [(k, JArr rs)] \<Rightarrow>
          if k = js ''comments'' \<and> list_all (\<lambda>r. record_visual r \<noteq> None) rs
          then Inr (map (\<lambda>r. the (record_visual r)) rs) else Inl TypeError
      | _ \<Rightarrow> Inl TypeError)"

text \<open>
  An engine whose \<^verbatim>\<open>sort\<close> is an insertion sort: every element in turn moves left past
  the elements it is to come before. \<open>insert_left\<close> works on the part already sorted,
  last element first.
\<close>

fun insert_left :: "number \<Rightarrow> number list \<Rightarrow> number list" where
  "insert_left x [] = [x]"
| "insert_left x (p # r) = (if precedes x p then p # insert_left x r else x # p # r)"

definition insertion_order :: "number list \<Rightarrow> number list" where
  "insertion_order ns = rev (foldl (\<lambda>r x. insert_left x r) [] ns)"

definition sample_env :: env where
  "sample_env =
     \<lparr>saveFrequency = js ''auto'', openFrequency = js ''auto'',
      visuals_of = sample_visuals_of, payload_of = sample_payload_of,
      sort_order = insertion_order\<rparr>"

definition sample_rows :: "element list" where
  "sample_rows =
     [\<lparr>visual_id = None, classes = [], line_number = Some (js ''10''), shown = []\<rparr>,
      \<lparr>visual_id = None, classes = [], line_number = Some (js ''11''), shown = []\<rparr>]"

definition sample_visual :: "int \<Rightarrow> int \<Rightarrow> string \<Rightarrow> visual" where
  "sample_visual i l t = \<lparr>vid = JNum i, vfile = JStr (js ''a.go''), vline = JNum l, vtext = js t\<rparr>"

definition sample_payload :: json where
  "sample_payload =
     sample_payload_of
       [sample_visual 3 10 ''fix this'', sample_visual 7 11 ''and this'',
        sample_visual 5 10 ''this too'']"

definition sample_app :: app where
  "sample_app = App_constructor \<lparr>body = [], reachable = True\<rparr> sample_rows 1"

text \<open>A page with two comment widgets, the first of them selected.\<close>

definition sample_page :: "element list" where
  "sample_page =
     [\<lparr>visual_id = None, classes = [], line_number = Some (js ''10''), shown = []\<rparr>,
      \<lparr>visual_id = Some (js ''2''),
       classes = [sample_MAGIC, js ''visual-root'', js ''selected''],
       line_number = None, shown = js ''fix this''\<rparr>,
      \<lparr>visual_id = None, classes = [], line_number = Some (js ''11''), shown = []\<rparr>,
      \<lparr>visual_id = Some (js ''3''), classes = [sample_MAGIC, js ''visual-root''],
       line_number = None, shown = js ''and this''\<rparr>]"

text \<open>An \<^verbatim>\<open>App\<close> that shows the two annotations of \<open>sample_page\<close>.\<close>

definition sample_loaded :: app where
  "sample_loaded =
     (App_constructor \<lparr>body = [], reachable = True\<rparr> sample_page 3)
       \<lparr>presentation :=
          \<lparr>visuals = [sample_visual 2 10 ''fix this'', sample_visual 3 11 ''and this''],
           listeners = [Reconcile, MaybePersist]\<rparr>,
        sidebar :=
          \<lparr>entries = [sample_visual 2 10 ''fix this'', sample_visual 3 11 ''and this''],
           selected_entry = Some (JNum 2)\<rparr>\<rparr>"

text \<open>
  A payload whose first record holds a reply with an id of its own:
  \<^verbatim>\<open>{ comments: [ { id: 3, replies: [ { id: 7 } ] }, { id: 5 } ] }\<close>.
\<close>

definition nested_payload :: json where
  "nested_payload =
     JObj [(js ''comments'',
            JArr [JObj [(js ''id'', JNum 3), (js ''replies'', JArr [JObj [(js ''id'', JNum 7)]])],
                  JObj [(js ''id'', JNum 5)]])]"

section \<open>The id scan in the words of the spec\<close>

text \<open>
  The spec has the scan recurse into every nested object and array regardless of
  grouping: \<open>all_ids\<close> is every \<^verbatim>\<open>id\<close> of every object at any depth. \<open>scan_ids\<close> is the
  scan that stops at an object that carries an \<^verbatim>\<open>id\<close>: such an object gives its
  \<^verbatim>\<open>id\<close> and is not searched. Both are compared with \<^verbatim>\<open>getAllIds\<close> below.
\<close>

fun all_ids :: "json \<Rightarrow> json list" where
  "all_ids (JObj kvs) =
     (case map_of kvs (js ''id'') of Some i \<Rightarrow> [i] | None \<Rightarrow> [])
       @ concat (map (\<lambda>kv. all_ids (snd kv)) kvs)"
| "all_ids (JArr xs) = concat (map all_ids xs)"
| "all_ids v = []"

fun scan_ids :: "json \<Rightarrow> json list" where
  "scan_ids (JObj kvs) =
     (case map_of kvs (js ''id'') of
        Some i \<Rightarrow> [i]
      | None \<Rightarrow> concat (map (\<lambda>kv. scan_ids (snd kv)) kvs))"
| "scan_ids (JArr xs) = concat (map scan_ids xs)"
| "scan_ids v = []"

definition id_number :: "json \<Rightarrow> int" where
  "id_number i = (case i of JNum n \<Rightarrow> n | _ \<Rightarrow> 0)"

text \<open>The maximum of the ids, or 1 when there is none.\<close>

definition max_or_1 :: "json list \<Rightarrow> int" where
  "max_or_1 ids = (if ids = [] then 1 else Max (set (map id_number ids)))"

text \<open>
  The payloads on which the scan of \<^verbatim>\<open>getAllIds\<close> is the scan of the spec: every
  \<^verbatim>\<open>id\<close> the scan meets is an integer other than 0 and below \<open>2 ^ 53\<close> in magnitude,
  which \<^verbatim>\<open>parseInt\<close> reads back from its decimal digits, and the scan meets no \<^verbatim>\<open>null\<close>.
\<close>

fun scan_clean :: "json \<Rightarrow> bool" where
  "scan_clean JNull = False"
| "scan_clean (JObj kvs) =
     (case map_of kvs (js ''id'') of
        Some i \<Rightarrow> (case i of JNum n \<Rightarrow> n \<noteq> 0 \<and> \<bar>n\<bar> < 9007199254740992 | _ \<Rightarrow> False)
      | None \<Rightarrow> list_all (\<lambda>kv. scan_clean (snd kv)) kvs)"
| "scan_clean (JArr xs) = list_all scan_clean xs"
| "scan_clean v = True"

text \<open>The payload is not itself an object that carries an \<^verbatim>\<open>id\<close>.\<close>

definition no_own_id :: "json \<Rightarrow> bool" where
  "no_own_id payload = (case payload of JObj kvs \<Rightarrow> map_of kvs (js ''id'') = None | _ \<Rightarrow> True)"

section \<open>The marker\<close>

text \<open>
  \<^verbatim>\<open>MAGIC\<close> stands in a regular expression and, in \<^verbatim>\<open>selectVisual\<close>, in a class selector.
  The properties of the codec are stated for a marker that is a name: letters, digits,
  underscores and hyphens, the first of them not a hyphen. Such a marker has no
  character the pattern syntax gives a meaning.
\<close>

definition is_word :: "nat \<Rightarrow> bool" where
  "is_word c = ((48 \<le> c \<and> c \<le> 57) \<or> (65 \<le> c \<and> c \<le> 90) \<or> (97 \<le> c \<and> c \<le> 122) \<or> c = 95)"

definition marker_ok :: "jstring \<Rightarrow> bool" where
  "marker_ok MAGIC =
     (MAGIC \<noteq> [] \<and> is_word (hd MAGIC) \<and> list_all (\<lambda>c. is_word c \<or> c = 45) MAGIC)"

text \<open>The text holds the marker somewhere.\<close>

fun occurs_in :: "jstring \<Rightarrow> jstring \<Rightarrow> bool" where
  "occurs_in MAGIC [] = prefix MAGIC []"
| "occurs_in MAGIC (x # xs) = (prefix MAGIC (x # xs) \<or> occurs_in MAGIC xs)"

text \<open>
  A property name made of digits only. The host visits the properties whose names are
  array indices before the others and in ascending order, whatever the order they were
  written in; an object without such a name is visited in the order written.
\<close>

definition index_key :: "jstring \<Rightarrow> bool" where
  "index_key k = (k \<noteq> [] \<and> list_all is_digit k)"

text \<open>
  The payloads that are values of the host language and on which the model of
  \<^verbatim>\<open>JSON.parse\<close> is the host's: the properties of an object have different names, none
  of them made of digits only, and a number is an integer that a double holds exactly.
\<close>

fun serializable :: "json \<Rightarrow> bool" where
  "serializable (JNum n) = (\<bar>n\<bar> < 9007199254740992)"
| "serializable (JFrac m k) = False"
| "serializable (JInf neg) = False"
| "serializable (JArr xs) = list_all serializable xs"
| "serializable (JObj kvs) =
     (distinct (map fst kvs) \<and> list_all (\<lambda>kv. \<not> index_key (fst kv)) kvs
      \<and> list_all (\<lambda>kv. serializable (snd kv)) kvs)"
| "serializable v = True"

text \<open>The payload of the spec's scenario.\<close>

definition scenario_payload :: json where
  "scenario_payload =
     JObj [(js ''comments'',
            JArr [JObj [(js ''id'', JNum 2),
                        (js ''context'', JObj [(js ''file'', JStr (js ''a.go'')),
                                               (js ''lineNo'', JNum 10)]),
                        (js ''text'', JStr (js ''fix this''))]])]"

section \<open>The text \<^verbatim>\<open>JSON.stringify\<close> writes\<close>

text \<open>
  The number of calls of \<open>parse_value\<close>, \<open>parse_elements\<close> and \<open>parse_members\<close> that
  reading a value takes: a bound on the first argument of \<open>parse_value\<close>.
\<close>

fun nodes :: "json \<Rightarrow> nat" where
  "nodes (JArr xs) = Suc (sum_list (map (\<lambda>x. Suc (nodes x)) xs))"
| "nodes (JObj kvs) = Suc (sum_list (map (\<lambda>kv. Suc (nodes (snd kv))) kvs))"
| "nodes v = 1"

text \<open>What can follow a number: the end of the text, or no digit, point or exponent.\<close>

definition num_end :: "jstring \<Rightarrow> bool" where
  "num_end r = (case r of [] \<Rightarrow> True | c # _ \<Rightarrow> \<not> is_digit c \<and> c \<noteq> 46 \<and> c \<noteq> 101 \<and> c \<noteq> 69)"

text \<open>What follows a value in the text written: its end, a comma or a line feed.\<close>

definition value_end :: "jstring \<Rightarrow> bool" where
  "value_end r = (case r of [] \<Rightarrow> True | c # _ \<Rightarrow> c = 44 \<or> c = 10)"

text \<open>An indentation.\<close>

definition spaces :: "jstring \<Rightarrow> bool" where
  "spaces ind = (\<forall>c\<in>set ind. c = 32)"

text \<open>The first character of the text of a value.\<close>

definition value_start :: "nat \<Rightarrow> bool" where
  "value_start c = (c = 110 \<or> c = 116 \<or> c = 102 \<or> c = 45 \<or> is_digit c \<or> c = 34 \<or> c = 91 \<or> c = 123)"

section \<open>Properties\<close>

subsection \<open>Integers that are doubles\<close>

lemma bit_length_0: "bit_length 0 = 0"
  by (simp add: bit_length.simps)

lemma bit_length_pos: "0 < n \<Longrightarrow> bit_length n = Suc (bit_length (n div 2))"
  by (subst bit_length.simps) simp

lemma bit_length_bounds: "0 < n \<Longrightarrow> 2 ^ (bit_length n - 1) \<le> n \<and> n < 2 ^ bit_length n"
proof (induction n rule: bit_length.induct)
  case (1 n)
  show ?case
  proof (cases "n div 2 = 0")
    case True
    with "1.prems" have "n = 1" by (cases n) auto
    then show ?thesis by (simp add: bit_length_pos bit_length_0)
  next
    case False
    then have p: "0 < n div 2" by simp
    with "1.IH" "1.prems" have ih: "2 ^ (bit_length (n div 2) - 1) \<le> n div 2"
      "n div 2 < 2 ^ bit_length (n div 2)" by auto
    from p have b: "0 < bit_length (n div 2)" by (simp add: bit_length_pos)
    then obtain j where j: "bit_length (n div 2) = Suc j" by (cases "bit_length (n div 2)") auto
    from ih j have "2 * 2 ^ j \<le> n" "n < 2 * 2 ^ Suc j" by auto
    with "1.prems" j show ?thesis by (simp add: bit_length_pos)
  qed
qed

lemma bit_length_le: "n < 2 ^ k \<Longrightarrow> bit_length n \<le> k"
proof (cases "n = 0")
  case True
  then show ?thesis by (simp add: bit_length_0)
next
  case False
  assume k: "n < 2 ^ k"
  from bit_length_bounds [of n] False have "2 ^ (bit_length n - 1) \<le> n" by simp
  from this k have "(2::nat) ^ (bit_length n - 1) < 2 ^ k" by (rule le_less_trans)
  then have "bit_length n - 1 < k" by simp
  then show ?thesis by simp
qed

lemma bit_length_1: "bit_length (Suc 0) = 1"
  by (simp add: bit_length_pos bit_length_0)

lemma round_half_even_1: "round_half_even a (Suc 0) = a"
  by (simp add: round_half_even_def)

text \<open>An integer below \<open>2 ^ 53\<close> is a double.\<close>

lemma to_double_safe:
  assumes "0 < n" and "n < 2 ^ 53"
  shows "to_double n (Suc 0) = Some (n * 2 ^ (53 - bit_length n), int (bit_length n) - 53)"
proof -
  let ?l = "bit_length n"
  have l: "?l \<le> 53" "0 < ?l" using assms bit_length_le [of n 53] by (simp_all add: bit_length_pos)
  have lo: "2 ^ (?l - 1) \<le> n" and hi: "n < 2 ^ ?l" using bit_length_bounds [OF assms(1)] by simp_all
  have be: "binary_exponent n (Suc 0) = int ?l - 1"
    using l lo by (simp add: binary_exponent_def bit_length_1 nat_diff_distrib)
  have e: "max (binary_exponent n (Suc 0) - 52) (- 1074) = int ?l - 53" using l be by simp
  have "n * 2 ^ (53 - ?l) < 2 ^ ?l * 2 ^ (53 - ?l)" using hi by simp
  also have "\<dots> = 2 ^ 53" using l by (simp flip: power_add)
  finally have m: "n * 2 ^ (53 - ?l) < 2 ^ 53" .
  show ?thesis
  proof (cases "?l = 53")
    case True
    with assms(2) show ?thesis
      unfolding to_double_def e by (simp add: round_half_even_1)
  next
    case False
    with l have n: "nat (53 - int ?l) = 53 - ?l" "\<not> 0 \<le> int ?l - 53" by auto
    from m have "n * 2 ^ (53 - ?l) \<noteq> 2 ^ 53" by simp
    then show ?thesis
      unfolding to_double_def e using n by (simp add: round_half_even_1 Let_def)
  qed
qed

lemma normalize_power: "normalize (x * 10 ^ k) k = JNum x"
  by (induction k) simp_all

lemma normalize_power_neg: "normalize (- (x * 10 ^ k)) k = JNum (- x)"
  using normalize_power [of "- x" k] by simp

lemma double_json_safe:
  "j \<le> 53 \<Longrightarrow> double_json neg (n * 2 ^ j, - int j) = JNum (if neg then - int n else int n)"
proof (cases "j = 0")
  case True
  then show ?thesis by (simp add: double_json_def)
next
  case False
  have p: "(2::int) ^ j * 5 ^ j = 10 ^ j" by (simp flip: power_mult_distrib)
  have a: "int n * 2 ^ j * 5 ^ j = int n * 10 ^ j" by (simp only: mult.assoc p)
  from False show ?thesis
    by (simp add: double_json_def a normalize_power normalize_power_neg)
qed

lemma number_value_safe:
  assumes "n < 2 ^ 53"
  shows "number_value neg n [] 0 = JNum (if neg then - int n else int n)"
proof (cases "n = 0")
  case True
  then show ?thesis by (simp add: number_value_def digits_val_def)
next
  case False
  let ?l = "bit_length n"
  have l: "?l \<le> 53" using assms by (rule bit_length_le)
  have t: "to_double n (Suc 0) = Some (n * 2 ^ (53 - ?l), - int (53 - ?l))"
    using to_double_safe [of n] False assms l by simp
  show ?thesis
    using False by (simp add: number_value_def digits_val_def t double_json_safe)
qed

lemma integer_number_safe:
  assumes "n < 2 ^ 53"
  shows "integer_number neg n = Integer (if neg then - int n else int n)"
proof (cases "n = 0")
  case True
  then show ?thesis by (simp add: integer_number_def)
next
  case False
  let ?l = "bit_length n"
  have l: "?l \<le> 53" using assms by (rule bit_length_le)
  have t: "to_double n (Suc 0) = Some (n * 2 ^ (53 - ?l), int ?l - 53)"
    using to_double_safe [of n] False assms by simp
  show ?thesis
    using False l by (cases "?l = 53") (simp_all add: integer_number_def t nat_diff_distrib)
qed


subsection \<open>\<^verbatim>\<open>renderComment\<close> on an empty envelope\<close>

text \<open>
  C8. With an empty envelope \<^verbatim>\<open>renderComment\<close> puts no newline before the opening
  delimiter: the output is the delimited block and nothing else.
\<close>

theorem renderComment_empty_envelope:
  "renderComment MAGIC \<lparr>data = p, comment = []\<rparr>
     = js ''<!-- '' @ MAGIC @ JSON_stringify p @ MAGIC @ js '' -->''"
  by (simp add: renderComment_def)

theorem renderComment_empty_envelope_witness:
  "renderComment sample_MAGIC \<lparr>data = JObj [], comment = []\<rparr>
     = js ''<!-- __tellrequest__{}__tellrequest__ -->''"
  using renderComment_empty_envelope [of sample_MAGIC "JObj []"]
  by (simp add: sample_MAGIC_def JSON_stringify_def js_def)

subsection \<open>What \<^verbatim>\<open>PARSE_REGEX\<close> matches\<close>

text \<open>
  A match splits the text at two markers, and the pattern matches exactly the texts
  that hold two markers, one after the other.
\<close>

lemma match_data_Some:
  "match_data M s = Some (d, a) \<Longrightarrow> \<exists>t. s = d @ M @ t \<and> a = match_close t"
proof (induction s arbitrary: d a)
  case Nil
  then show ?case by (auto split: if_splits)
next
  case (Cons x xs)
  show ?case
  proof (cases "match_data M xs")
    case None
    with Cons.prems have p: "prefix M (x # xs)" and d: "d = []"
      and a: "a = match_close (drop (length M) (x # xs))"
      by (auto split: if_splits)
    from p obtain t where t: "x # xs = M @ t" by (auto simp: prefix_def)
    then have "drop (length M) (x # xs) = t" by (metis append_eq_conv_conj)
    with t d a show ?thesis by auto
  next
    case (Some r)
    obtain d' a' where r: "r = (d', a')" by (cases r)
    with Some Cons.prems have "d = x # d'" "a = a'" by auto
    moreover from Cons.IH Some r obtain t where "xs = d' @ M @ t" "a' = match_close t" by blast
    ultimately show ?thesis by auto
  qed
qed

lemma match_marker_Some:
  "match_marker M s = Some (d, a) \<Longrightarrow> \<exists>t. s = M @ d @ M @ t \<and> a = match_close t"
proof -
  assume h: "match_marker M s = Some (d, a)"
  then have p: "prefix M s" and m: "match_data M (drop (length M) s) = Some (d, a)"
    by (auto simp: match_marker_def split: if_splits)
  from p obtain r where r: "s = M @ r" by (auto simp: prefix_def)
  then have "drop (length M) s = r" by simp
  with m match_data_Some obtain t where "r = d @ M @ t" "a = match_close t" by metis
  with r show ?thesis by auto
qed

lemma match_spaces_Some:
  "match_spaces M s = Some (d, a) \<Longrightarrow>
     \<exists>ws t. s = ws @ M @ d @ M @ t \<and> a = match_close t \<and> (\<forall>c\<in>set ws. is_space c)"
proof (induction s)
  case Nil
  then have "match_marker M [] = Some (d, a)" by simp
  from match_marker_Some [OF this] show ?case by (metis append_Nil empty_iff list.set(1))
next
  case (Cons x xs)
  show ?case
  proof (cases "is_space x \<and> match_spaces M xs \<noteq> None")
    case True
    with Cons.prems have "match_spaces M xs = Some (d, a)" by auto
    from Cons.IH [OF this] obtain ws t where
      "xs = ws @ M @ d @ M @ t" "a = match_close t" "\<forall>c\<in>set ws. is_space c" by blast
    with True have "x # xs = (x # ws) @ M @ d @ M @ t \<and> a = match_close t \<and> (\<forall>c\<in>set (x # ws). is_space c)"
      by simp
    then show ?thesis by blast
  next
    case False
    with Cons.prems have "match_marker M (x # xs) = Some (d, a)"
      by (auto split: if_splits option.splits)
    from match_marker_Some [OF this] show ?thesis by (metis append_Nil empty_iff list.set(1))
  qed
qed

lemma match_open_Some:
  "match_open M s = Some (d, a) \<Longrightarrow>
     (\<exists>t. s = M @ d @ M @ t \<and> a = match_close t) \<or>
     (\<exists>ws t. s = js ''<!--'' @ ws @ M @ d @ M @ t \<and> a = match_close t \<and> (\<forall>c\<in>set ws. is_space c))"
proof -
  assume h: "match_open M s = Some (d, a)"
  show ?thesis
  proof (cases "prefix (js ''<!--'') s \<and> match_spaces M (drop 4 s) \<noteq> None")
    case True
    with h have m: "match_spaces M (drop 4 s) = Some (d, a)"
      by (auto simp: match_open_def)
    from True obtain r where r: "s = js ''<!--'' @ r" by (auto simp: prefix_def)
    then have "drop 4 s = r" by (simp add: js_def)
    with m match_spaces_Some r show ?thesis by metis
  next
    case False
    with h have "match_marker M s = Some (d, a)"
      by (auto simp: match_open_def split: option.splits if_splits)
    from match_marker_Some [OF this] show ?thesis by blast
  qed
qed

lemma match_before_Some:
  "match_before M pre s = Some (b, d, a) \<Longrightarrow>
     \<exists>u w t. s = u @ w @ M @ d @ M @ t \<and> b = pre @ u \<and> a = match_close t"
proof (induction s arbitrary: pre)
  case Nil
  then have "match_open M [] = Some (d, a)" "b = pre" by (auto split: option.splits)
  with match_open_Some [of M "[]" d a] show ?case by (auto simp: js_def)
next
  case (Cons x xs)
  show ?case
  proof (cases "match_open M (x # xs)")
    case None
    with Cons.prems have "match_before M (pre @ [x]) xs = Some (b, d, a)" by simp
    from Cons.IH [OF this] obtain u w t where
      "xs = u @ w @ M @ d @ M @ t" "b = (pre @ [x]) @ u" "a = match_close t" by blast
    then have "x # xs = (x # u) @ w @ M @ d @ M @ t \<and> b = pre @ (x # u) \<and> a = match_close t" by simp
    then show ?thesis by blast
  next
    case (Some r)
    with Cons.prems have m: "match_open M (x # xs) = Some (d, a)" and b: "b = pre"
      by (auto split: prod.splits)
    from match_open_Some [OF m] b show ?thesis
      by (metis append_Nil append_Nil2 append_assoc)
  qed
qed

lemma PARSE_REGEX_Some:
  "PARSE_REGEX M c = Some (b, d, a) \<Longrightarrow> \<exists>u t. c = u @ M @ d @ M @ t"
  unfolding PARSE_REGEX_def by (drule match_before_Some) (metis append_assoc)


lemma match_data_complete: "\<exists>r. match_data M (v @ M @ w) = Some r"
proof (induction v)
  case Nil
  show ?case
  proof (cases "M @ w")
    case Nil
    then show ?thesis by simp
  next
    case (Cons x xs)
    then have "prefix M (x # xs)" by (metis prefixI)
    with Cons show ?thesis by (auto split: option.splits)
  qed
next
  case (Cons x v)
  then show ?case by (auto split: option.splits)
qed

lemma match_marker_complete: "\<exists>r. match_marker M (M @ v @ M @ w) = Some r"
  using match_data_complete [of M v w] by (simp add: match_marker_def)

lemma match_open_complete:
  "match_marker M s = Some r \<Longrightarrow> \<exists>r'. match_open M s = Some r'"
  by (auto simp: match_open_def split: option.splits)

lemma match_before_here:
  "match_open M s = Some (d, a) \<Longrightarrow> match_before M pre s = Some (pre, d, a)"
  by (cases s) auto

lemma match_before_complete:
  "match_open M s = Some r \<Longrightarrow> \<exists>r'. match_before M pre (u @ s) = Some r'"
proof (induction u arbitrary: pre)
  case Nil
  then show ?case using match_before_here [of M s "fst r" "snd r" pre] by simp
next
  case (Cons x u)
  then show ?case by (auto split: option.splits)
qed

lemma PARSE_REGEX_None_iff:
  "PARSE_REGEX M c = None \<longleftrightarrow> \<not> (\<exists>u v w. c = u @ M @ v @ M @ w)"
proof
  assume n: "PARSE_REGEX M c = None"
  show "\<not> (\<exists>u v w. c = u @ M @ v @ M @ w)"
  proof
    assume "\<exists>u v w. c = u @ M @ v @ M @ w"
    then obtain u v w where c: "c = u @ (M @ v @ M @ w)" by auto
    obtain r where "match_marker M (M @ v @ M @ w) = Some r"
      using match_marker_complete by blast
    then obtain r' where "match_open M (M @ v @ M @ w) = Some r'"
      using match_open_complete by blast
    then obtain r'' where "match_before M [] (u @ (M @ v @ M @ w)) = Some r''"
      using match_before_complete by blast
    with n c show False by (simp add: PARSE_REGEX_def)
  qed
next
  assume h: "\<not> (\<exists>u v w. c = u @ M @ v @ M @ w)"
  show "PARSE_REGEX M c = None"
  proof (cases "PARSE_REGEX M c")
    case None
    then show ?thesis .
  next
    case (Some r)
    obtain b d a where "r = (b, d, a)" by (cases r)
    with Some PARSE_REGEX_Some [of M c b d a] h show ?thesis by blast
  qed
qed

lemma JSON_parse_failure: "JSON_parse s = Inl e \<Longrightarrow> e = SyntaxError"
  by (auto simp: JSON_parse_def split: option.splits if_splits)

subsection \<open>\<^verbatim>\<open>parseComment\<close> reports absent\<close>

text \<open>
  C5. \<^verbatim>\<open>parseComment\<close> returns a value for every string, and that value is
  \<^verbatim>\<open>undefined\<close> when the text holds no block, that is no two markers, and when the
  pattern finds a block whose interior \<^verbatim>\<open>JSON.parse\<close> rejects: the exception stays
  inside \<^verbatim>\<open>Try\<close>.
\<close>

theorem parseComment_reports_absent:
  "(\<not> (\<exists>u v w. c = u @ M @ v @ M @ w) \<longrightarrow> parseComment M c = None) \<and>
   (\<forall>b d a e. PARSE_REGEX M c = Some (b, d, a) \<and> JSON_parse d = Inl e
      \<longrightarrow> parseComment M c = None)"
proof (intro conjI impI allI)
  assume "\<not> (\<exists>u v w. c = u @ M @ v @ M @ w)"
  then have "PARSE_REGEX M c = None" using PARSE_REGEX_None_iff [of M c] by blast
  then show "parseComment M c = None" by (simp add: parseComment_def)
next
  fix b d a e
  assume "PARSE_REGEX M c = Some (b, d, a) \<and> JSON_parse d = Inl e"
  then show "parseComment M c = None" by (simp add: parseComment_def Try_def)
qed

text \<open>The definitions that evaluate the codec on an example.\<close>

lemmas regex_eval =
  PARSE_REGEX_def match_open_def match_marker_def match_close_def sample_MAGIC_def js_def
  is_space_def

lemma sample_no_block: "PARSE_REGEX sample_MAGIC (js ''Just a description'') = None"
  by (simp add: regex_eval)

lemma sample_bad_block:
  "PARSE_REGEX sample_MAGIC (js ''a <!-- __tellrequest__{oops__tellrequest__ --> b'')
     = Some (js ''a '', js ''{oops'', js '' b'')"
  by (simp add: regex_eval)

lemma sample_bad_json: "JSON_parse (js ''{oops'') = Inl SyntaxError"
  by (simp add: JSON_parse_def skip_ws_def json_ws_def js_def)

theorem parseComment_reports_absent_witness:
  "parseComment sample_MAGIC (js ''Just a description'') = None \<and>
   parseComment sample_MAGIC (js ''a <!-- __tellrequest__{oops__tellrequest__ --> b'') = None"
proof -
  have 1: "\<not> (\<exists>u v w. js ''Just a description'' = u @ sample_MAGIC @ v @ sample_MAGIC @ w)"
    using sample_no_block PARSE_REGEX_None_iff [of sample_MAGIC "js ''Just a description''"] by blast
  from parseComment_reports_absent [of "js ''Just a description''" sample_MAGIC] 1
  have a: "parseComment sample_MAGIC (js ''Just a description'') = None" by blast
  from parseComment_reports_absent
         [of "js ''a <!-- __tellrequest__{oops__tellrequest__ --> b''" sample_MAGIC]
       sample_bad_block sample_bad_json
  have b: "parseComment sample_MAGIC (js ''a <!-- __tellrequest__{oops__tellrequest__ --> b'') = None"
    by blast
  from a b show ?thesis by simp
qed


subsection \<open>\<^verbatim>\<open>onSettingsLoad\<close> on a field without a block\<close>

lemma parseComment_None_onSettingsLoad:
  "reachable (github a) \<Longrightarrow> parseComment M (body (github a)) = None \<Longrightarrow>
     App_onSettingsLoad M E a = Inl (TypeError, a)"
  by (simp add: App_onSettingsLoad_def fetchIssueEditForm_def)

lemma sample_no_block_parse: "parseComment sample_MAGIC (js ''Just a description'') = None"
  using sample_no_block by (simp add: parseComment_def)

text \<open>
  C2. The claim has every path that decodes the field fall back to the whole text
  with an empty payload. \<^verbatim>\<open>persist\<close> does (see C4); \<^verbatim>\<open>onSettingsLoad\<close> reads
  \<^verbatim>\<open>parsed.data\<close> of the \<^verbatim>\<open>undefined\<close> that \<^verbatim>\<open>parseComment\<close> returned and rejects with
  a TypeError. Here on a field that holds a plain description.
\<close>

theorem onSettingsLoad_without_block_throws:
  "App_onSettingsLoad sample_MAGIC E
     (a\<lparr>github := \<lparr>body = js ''Just a description'', reachable = True\<rparr>\<rparr>)
   = Inl (TypeError, a\<lparr>github := \<lparr>body = js ''Just a description'', reachable = True\<rparr>\<rparr>)"
  using sample_no_block_parse by (simp add: parseComment_None_onSettingsLoad)

subsection \<open>\<^verbatim>\<open>persist\<close>\<close>

text \<open>
  C4. With the host in reach, \<^verbatim>\<open>persist\<close> writes back the envelope of the fetched
  text as it was, that is the text around the block, or the whole text when
  \<^verbatim>\<open>parseComment\<close> reports absent, followed by a newline unless the envelope is empty
  or ends in white space, and by the block that holds the export of the Presentation.
\<close>

theorem persist_read_modify_write:
  assumes "reachable (github a)"
    and "envelope = (case parseComment M (body (github a)) of
                       Some r \<Rightarrow> comment r
                     | None \<Rightarrow> body (github a))"
  shows "App_persist M E a =
     Inr (a\<lparr>github := (github a)\<lparr>body :=
            envelope @ (if envelope = [] \<or> ends_with_space envelope then [] else js ''\<newline>'')
              @ js ''<!-- '' @ M @ JSON_stringify (Presentation_export E (presentation a)) @ M
              @ js '' -->''\<rparr>\<rparr>)"
proof (cases "parseComment M (body (github a))")
  case None
  with assms show ?thesis
    by (simp add: App_persist_def fetchIssueEditForm_def updateIssuePart_def renderComment_def
          App_export_def)
next
  case (Some r)
  with assms show ?thesis
    by (simp add: App_persist_def fetchIssueEditForm_def updateIssuePart_def renderComment_def
          App_export_def)
qed

lemmas json_eval =
  JSON_parse_def skip_ws_def json_ws_def number_def unsigned_number_def int_part_def
  frac_part_def exp_part_def exp_digits_def number_value_def is_digit_def digits_val_def
  hex_val_def unescape_def Try_def

lemma sample_block_parse:
  "parseComment sample_MAGIC (js ''Intro\<newline><!-- __tellrequest__{}__tellrequest__ -->'')
     = Some \<lparr>data = JObj [], comment = js ''Intro\<newline>''\<rparr>"
  by (simp add: parseComment_def regex_eval json_eval)

theorem persist_read_modify_write_witness:
  "App_persist sample_MAGIC sample_env
     (App_constructor \<lparr>body = js ''Intro'', reachable = True\<rparr> [] 1)
   = Inr (App_constructor
       \<lparr>body = js ''Intro'' @ js ''\<newline>'' @ js ''<!-- '' @ sample_MAGIC
                 @ JSON_stringify (JObj [(js ''comments'', JArr [])]) @ sample_MAGIC @ js '' -->'',
        reachable = True\<rparr> [] 1)
   \<and> App_persist sample_MAGIC sample_env
     (App_constructor
        \<lparr>body = js ''Intro\<newline><!-- __tellrequest__{}__tellrequest__ -->'', reachable = True\<rparr> [] 1)
   = Inr (App_constructor
       \<lparr>body = js ''Intro\<newline>'' @ js ''<!-- '' @ sample_MAGIC
                 @ JSON_stringify (JObj [(js ''comments'', JArr [])]) @ sample_MAGIC @ js '' -->'',
        reachable = True\<rparr> [] 1)"
proof -
  let ?g1 = "\<lparr>body = js ''Intro'', reachable = True\<rparr>"
  let ?g2 = "\<lparr>body = js ''Intro\<newline><!-- __tellrequest__{}__tellrequest__ -->'', reachable = True\<rparr>"
  have n: "parseComment sample_MAGIC (js ''Intro'') = None"
    by (simp add: parseComment_def regex_eval)
  have e: "\<not> ends_with_space (js ''Intro'')" "ends_with_space (js ''Intro\<newline>'')"
    by (simp_all add: ends_with_space_def is_space_def js_def)
  have x: "Presentation_export sample_env (presentation (App_constructor g [] 1))
             = JObj [(js ''comments'', JArr [])]" for g
    by (simp add: Presentation_export_def App_constructor_def sample_env_def sample_payload_of_def)
  have 1: "reachable (github (App_constructor ?g1 [] 1))"
    and 2: "reachable (github (App_constructor ?g2 [] 1))"
    by (simp_all add: App_constructor_def)
  have 3: "js ''Intro'' = (case parseComment sample_MAGIC (body (github (App_constructor ?g1 [] 1))) of
             Some r \<Rightarrow> comment r | None \<Rightarrow> body (github (App_constructor ?g1 [] 1)))"
    using n by (simp add: App_constructor_def)
  have 4: "js ''Intro\<newline>'' = (case parseComment sample_MAGIC (body (github (App_constructor ?g2 [] 1))) of
             Some r \<Rightarrow> comment r | None \<Rightarrow> body (github (App_constructor ?g2 [] 1)))"
    using sample_block_parse by (simp add: App_constructor_def)
  from persist_read_modify_write [OF 1 3, of sample_env] persist_read_modify_write [OF 2 4, of sample_env]
  show ?thesis using e x by (simp add: App_constructor_def js_def)
qed

subsection \<open>\<^verbatim>\<open>selectVisual\<close>\<close>

lemma filter_update_first_le:
  "length (filter P (update_first Q f xs)) \<le> Suc (length (filter P xs))"
  by (induction xs) auto

lemma cleared_no_selected:
  "filter (is_selected_root M)
     (map (\<lambda>x. if is_selected_root M x then remove_class (js ''selected'') x else x) doc) = []"
  by (induction doc) (auto simp: is_selected_root_def remove_class_def)

lemma selectVisual_already:
  "App_findVisualUI a i = Some e \<Longrightarrow> js ''selected'' \<in> set (classes e) \<Longrightarrow>
     App_selectVisual M a i = Inr a"
  by (simp add: App_selectVisual_def)

lemma selectVisual_other:
  assumes "App_findVisualUI a i = Some e" and "js ''selected'' \<notin> set (classes e)"
  shows "App_selectVisual M a i =
     Inr (a\<lparr>document :=
              update_first (is_visual_root i) (add_class (js ''selected''))
                (map (\<lambda>x. if is_selected_root M x then remove_class (js ''selected'') x else x)
                   (document a)),
            select_events := select_events a @ [i],
            sidebar := sidebar_select i (sidebar a)\<rparr>)"
  using assms by (simp add: App_selectVisual_def App_onSelect_def)

text \<open>
  C9. Selecting the id whose widget already has the class \<^verbatim>\<open>selected\<close> returns the
  state as it is: no class changes and no \<^verbatim>\<open>select\<close> event is dispatched. Selecting
  another id that has a widget first takes \<^verbatim>\<open>selected\<close> from every element the selector
  \<^verbatim>\<open>.MAGIC.visual-root.selected\<close> matches, then adds it to the widget of the id and
  dispatches one \<^verbatim>\<open>select\<close> event; at most one element then matches that selector. So
  a page with at most one selected view node still has at most one after any call that
  returns.
\<close>

theorem selectVisual_single_choice:
  "(App_findVisualUI a i = Some e \<and> js ''selected'' \<in> set (classes e)
      \<longrightarrow> App_selectVisual M a i = Inr a) \<and>
   (App_findVisualUI a i = Some e \<and> js ''selected'' \<notin> set (classes e)
      \<longrightarrow> (\<exists>a'. App_selectVisual M a i = Inr a'
            \<and> document a' =
                update_first (is_visual_root i) (add_class (js ''selected''))
                  (map (\<lambda>x. if is_selected_root M x then remove_class (js ''selected'') x else x)
                     (document a))
            \<and> select_events a' = select_events a @ [i]
            \<and> length (filter (is_selected_root M) (document a')) \<le> 1)) \<and>
   (length (filter (is_selected_root M) (document a)) \<le> 1 \<and> App_selectVisual M a i = Inr a'
      \<longrightarrow> length (filter (is_selected_root M) (document a')) \<le> 1)"
proof (intro conjI impI)
  assume "App_findVisualUI a i = Some e \<and> js ''selected'' \<in> set (classes e)"
  then show "App_selectVisual M a i = Inr a" by (simp add: selectVisual_already)
next
  let ?doc = "update_first (is_visual_root i) (add_class (js ''selected''))
                (map (\<lambda>x. if is_selected_root M x then remove_class (js ''selected'') x else x)
                   (document a))"
  assume h: "App_findVisualUI a i = Some e \<and> js ''selected'' \<notin> set (classes e)"
  have "length (filter (is_selected_root M) ?doc) \<le> 1"
    using filter_update_first_le [of "is_selected_root M" "is_visual_root i"
            "add_class (js ''selected'')"
            "map (\<lambda>x. if is_selected_root M x then remove_class (js ''selected'') x else x) (document a)"]
    by (simp add: cleared_no_selected)
  with h show "\<exists>a'. App_selectVisual M a i = Inr a' \<and> document a' = ?doc
      \<and> select_events a' = select_events a @ [i]
      \<and> length (filter (is_selected_root M) (document a')) \<le> 1"
    by (simp add: selectVisual_other)
next
  assume h: "length (filter (is_selected_root M) (document a)) \<le> 1 \<and> App_selectVisual M a i = Inr a'"
  show "length (filter (is_selected_root M) (document a')) \<le> 1"
  proof (cases "App_findVisualUI a i")
    case None
    with h show ?thesis by (simp add: App_selectVisual_def)
  next
    case (Some e')
    show ?thesis
    proof (cases "js ''selected'' \<in> set (classes e')")
      case True
      with Some h show ?thesis by (auto simp: selectVisual_already)
    next
      case False
      have "length (filter (is_selected_root M)
              (update_first (is_visual_root i) (add_class (js ''selected''))
                (map (\<lambda>x. if is_selected_root M x then remove_class (js ''selected'') x else x)
                   (document a)))) \<le> 1"
        using filter_update_first_le [of "is_selected_root M" "is_visual_root i"
            "add_class (js ''selected'')"
            "map (\<lambda>x. if is_selected_root M x then remove_class (js ''selected'') x else x) (document a)"]
        by (simp add: cleared_no_selected)
      with Some False h show ?thesis by (auto simp: selectVisual_other)
    qed
  qed
qed

subsection \<open>\<^verbatim>\<open>import\<close>: the old view is gone before the new one is built\<close>

lemma onPresentationChange_delivered [simp]:
  "delivered (App_onPresentationChange M p ev a) = delivered a"
  by (simp add: App_onPresentationChange_def Let_def split: prod.splits)

lemma onPresentationChange_frame [simp]:
  "ids_counter (App_onPresentationChange M p ev a) = ids_counter a"
  "presentation (App_onPresentationChange M p ev a) = presentation a"
  "github (App_onPresentationChange M p ev a) = github a"
  "select_events (App_onPresentationChange M p ev a) = select_events a"
  by (simp_all add: App_onPresentationChange_def Let_def split: prod.splits)

lemma onPresentationChange_removed:
  "document (App_onPresentationChange M p \<lparr>added = [], removed = vs\<rparr> a)
     = fold (\<lambda>x. remove_first (is_visual_root (vid x))) vs (document a)"
  "sidebar (App_onPresentationChange M p \<lparr>added = [], removed = vs\<rparr> a)
     = fold (\<lambda>x. sidebar_remove (vid x)) vs (sidebar a)"
  by (simp_all add: App_onPresentationChange_def)

lemma filter_remove_first_le:
  "length (filter P (remove_first Q xs)) \<le> length (filter P xs)"
  by (induction xs) auto

lemma filter_remove_first_same:
  "length (filter Q (remove_first Q xs)) = length (filter Q xs) - 1"
  by (induction xs) auto

lemma filter_fold_remove_first_le:
  "length (filter P (fold (\<lambda>x. remove_first (R x)) vs doc)) \<le> length (filter P doc)"
proof (induction vs arbitrary: doc)
  case Nil
  show ?case by simp
next
  case (Cons v vs)
  have "length (filter P (fold (\<lambda>x. remove_first (R x)) vs (remove_first (R v) doc)))
          \<le> length (filter P (remove_first (R v) doc))"
    by (rule Cons.IH)
  also have "\<dots> \<le> length (filter P doc)" by (rule filter_remove_first_le)
  finally show ?case by simp
qed

lemma fold_remove_first_all:
  "\<forall>v\<in>set vs. length (filter (R v) doc) \<le> 1 \<Longrightarrow> w \<in> set vs \<Longrightarrow>
     filter (R w) (fold (\<lambda>x. remove_first (R x)) vs doc) = []"
proof (induction vs arbitrary: doc)
  case Nil
  then show ?case by simp
next
  case (Cons v vs)
  let ?doc = "remove_first (R v) doc"
  have pre: "\<forall>u\<in>set vs. length (filter (R u) ?doc) \<le> 1"
  proof
    fix u assume "u \<in> set vs"
    with Cons.prems(1) have "length (filter (R u) doc) \<le> 1" by simp
    with filter_remove_first_le [of "R u" "R v" doc] show "length (filter (R u) ?doc) \<le> 1"
      by linarith
  qed
  show ?case
  proof (cases "w \<in> set vs")
    case True
    with Cons.IH [OF pre] show ?thesis by simp
  next
    case False
    with Cons.prems(2) have w: "w = v" by simp
    from Cons.prems(1) have "length (filter (R v) doc) \<le> 1" by simp
    with filter_remove_first_same [of "R v" doc] have "length (filter (R v) ?doc) = 0" by simp
    with filter_fold_remove_first_le [of "R v" R vs ?doc]
    have "length (filter (R v) (fold (\<lambda>x. remove_first (R x)) vs ?doc)) = 0" by simp
    with w show ?thesis by simp
  qed
qed

lemma find_None_filter: "List.find P xs = None \<longleftrightarrow> filter P xs = []"
  by (induction xs) auto

lemma sidebar_fold_remove:
  "w \<in> set vs \<Longrightarrow>
     vid w \<notin> vid ` set (entries (fold (\<lambda>x. sidebar_remove (vid x)) vs sb))"
proof (induction vs arbitrary: sb)
  case Nil
  then show ?case by simp
next
  case (Cons v vs)
  have mono: "set (entries (fold (\<lambda>x. sidebar_remove (vid x)) us s)) \<subseteq> set (entries s)" for us s
  proof (induction us arbitrary: s)
    case Nil
    show ?case by simp
  next
    case (Cons u us)
    have "set (entries (fold (\<lambda>x. sidebar_remove (vid x)) us (sidebar_remove (vid u) s)))
            \<subseteq> set (entries (sidebar_remove (vid u) s))"
      by (rule Cons.IH)
    also have "\<dots> \<subseteq> set (entries s)" by (auto simp: sidebar_remove_def)
    finally show ?case by simp
  qed
  show ?case
  proof (cases "w \<in> set vs")
    case True
    with Cons.IH show ?thesis by simp
  next
    case False
    with Cons.prems have "w = v" by simp
    moreover have "vid v \<notin> vid ` set (entries (sidebar_remove (vid v) sb))"
      by (auto simp: sidebar_remove_def)
    ultimately show ?thesis using mono [of vs "sidebar_remove (vid v) sb"] by auto
  qed
qed

lemma dispatch_both:
  "listeners p = [Reconcile, MaybePersist] \<Longrightarrow>
     dispatch M p ev a =
       (p, (App_onPresentationChange M p ev (a\<lparr>delivered := delivered a @ [(Reconcile, ev)]\<rparr>))
             \<lparr>delivered := delivered a @ [(Reconcile, ev), (MaybePersist, ev)]\<rparr>)"
  by (simp add: dispatch_def)

lemma dispatch_waiting:
  "listeners p = [Reconcile, MaybePersist, WaitEvent] \<Longrightarrow>
     dispatch M p ev a =
       (p\<lparr>listeners := [Reconcile, MaybePersist]\<rparr>,
        (App_onPresentationChange M p ev (a\<lparr>delivered := delivered a @ [(Reconcile, ev)]\<rparr>))
             \<lparr>delivered := delivered a @ [(Reconcile, ev), (MaybePersist, ev), (WaitEvent, ev)]\<rparr>)"
  by (simp add: dispatch_def)

lemma dispatch_reconcile_only:
  "listeners p = [Reconcile] \<Longrightarrow>
     dispatch M p ev a =
       (p, App_onPresentationChange M p ev (a\<lparr>delivered := delivered a @ [(Reconcile, ev)]\<rparr>))"
  by (simp add: dispatch_def)

text \<open>
  C6. On an \<^verbatim>\<open>App\<close> whose Presentation is not empty and has the two listeners of the
  constructor, and whose page has at most one widget for each annotation, the first
  statement of \<^verbatim>\<open>import\<close> ends with the remove-all notification delivered to the view
  listener, the persistence listener and last the listener of \<^verbatim>\<open>Util.waitEvent\<close>; no
  widget and no side-list entry of an old annotation is left, and the counter of \<^verbatim>\<open>Ids\<close>
  is untouched. The seed and the new Presentation come after, on that state.
\<close>

theorem import_awaits_cleanup:
  assumes ne: "visuals (presentation a) \<noteq> []"
    and ls: "listeners (presentation a) = [Reconcile, MaybePersist]"
    and one: "\<forall>v\<in>set (visuals (presentation a)).
                length (filter (is_visual_root (vid v)) (document a)) \<le> 1"
    and ev: "ev = \<lparr>added = [], removed = visuals (presentation a)\<rparr>"
  shows "\<exists>a1. App_import_cleanup M a = Inr a1
           \<and> delivered a1 = delivered a @ [(Reconcile, ev), (MaybePersist, ev), (WaitEvent, ev)]
           \<and> (\<forall>v\<in>set (visuals (presentation a)). App_findVisualUI a1 (vid v) = None)
           \<and> (\<forall>v\<in>set (visuals (presentation a)). vid v \<notin> vid ` set (entries (sidebar a1)))
           \<and> visuals (presentation a1) = []
           \<and> ids_counter a1 = ids_counter a
           \<and> App_import M E a payload =
               (case maxId E payload of
                  Inl e \<Rightarrow> Inl (e, a1)
                | Inr seed \<Rightarrow> App_import_install M E seed payload a1)"
proof -
  let ?q = "(presentation a)\<lparr>listeners := listeners (presentation a) @ [WaitEvent]\<rparr>"
  let ?p = "?q\<lparr>visuals := []\<rparr>"
  let ?b = "((App_onPresentationChange M ?p ev (a\<lparr>delivered := delivered a @ [(Reconcile, ev)]\<rparr>))
               \<lparr>delivered := delivered a @ [(Reconcile, ev), (MaybePersist, ev), (WaitEvent, ev)]\<rparr>)
               \<lparr>presentation := ?p\<lparr>listeners := [Reconcile, MaybePersist]\<rparr>\<rparr>"
  have lp: "listeners ?p = [Reconcile, MaybePersist, WaitEvent]" using ls by simp
  have d: "Presentation_removeAllVisuals M ?q a =
      (?p\<lparr>listeners := [Reconcile, MaybePersist]\<rparr>,
       (App_onPresentationChange M ?p ev (a\<lparr>delivered := delivered a @ [(Reconcile, ev)]\<rparr>))
          \<lparr>delivered := delivered a @ [(Reconcile, ev), (MaybePersist, ev), (WaitEvent, ev)]\<rparr>)"
    using dispatch_waiting [OF lp, of M ev a] ev by (simp add: Presentation_removeAllVisuals_def)
  have c: "App_import_cleanup M a = Inr ?b"
    using ne d by (simp add: App_import_cleanup_def)
  have doc: "document ?b = fold (\<lambda>x. remove_first (is_visual_root (vid x)))
               (visuals (presentation a)) (document a)"
    using ev by (simp add: onPresentationChange_removed)
  have sb: "sidebar ?b = fold (\<lambda>x. sidebar_remove (vid x)) (visuals (presentation a)) (sidebar a)"
    using ev by (simp add: onPresentationChange_removed)
  have gone: "\<forall>v\<in>set (visuals (presentation a)). App_findVisualUI ?b (vid v) = None"
  proof
    fix v assume v: "v \<in> set (visuals (presentation a))"
    from fold_remove_first_all [of "visuals (presentation a)" "\<lambda>v. is_visual_root (vid v)" "document a" v]
      one v
    have "filter (is_visual_root (vid v)) (document ?b) = []" unfolding doc by simp
    then show "App_findVisualUI ?b (vid v) = None"
      unfolding App_findVisualUI_def find_None_filter .
  qed
  have side: "\<forall>v\<in>set (visuals (presentation a)). vid v \<notin> vid ` set (entries (sidebar ?b))"
    unfolding sb using sidebar_fold_remove by blast
  have imp: "App_import M E a payload =
               (case maxId E payload of
                  Inl e \<Rightarrow> Inl (e, ?b)
                | Inr seed \<Rightarrow> App_import_install M E seed payload ?b)"
    by (simp only: App_import_def c sum.case)
  have "delivered ?b = delivered a @ [(Reconcile, ev), (MaybePersist, ev), (WaitEvent, ev)]"
    by simp
  moreover have "visuals (presentation ?b) = []" by simp
  moreover have "ids_counter ?b = ids_counter a" by simp
  ultimately show ?thesis using c gone side imp by blast
qed

subsection \<open>Decimal digits\<close>

lemma nat_digits_small: "n < 10 \<Longrightarrow> nat_digits n = [48 + n]"
  by (simp add: nat_digits.simps [of n])

lemma nat_digits_large: "10 \<le> n \<Longrightarrow> nat_digits n = nat_digits (n div 10) @ [48 + n mod 10]"
  by (simp add: nat_digits.simps [of n])

lemma nat_digits_not_Nil: "nat_digits n \<noteq> []"
  by (cases "n < 10") (simp_all add: nat_digits_small nat_digits_large)

lemma nat_digits_digits: "c \<in> set (nat_digits n) \<Longrightarrow> is_digit c"
proof (induction n arbitrary: c rule: nat_digits.induct)
  case (1 n)
  show ?case
  proof (cases "n < 10")
    case True
    with "1.prems" show ?thesis by (simp add: nat_digits_small is_digit_def)
  next
    case False
    with "1.prems" have "c \<in> set (nat_digits (n div 10)) \<or> c = 48 + n mod 10"
      by (auto simp: nat_digits_large)
    then show ?thesis
    proof
      assume "c \<in> set (nat_digits (n div 10))"
      with "1.IH" False show ?thesis by simp
    next
      assume "c = 48 + n mod 10"
      moreover have "n mod 10 < 10" by simp
      ultimately show ?thesis unfolding is_digit_def by linarith
    qed
  qed
qed

lemma digits_val_snoc: "digits_val (ds @ [d]) = 10 * digits_val ds + (d - 48)"
  by (simp add: digits_val_def)

lemma digits_val_nat_digits: "digits_val (nat_digits n) = n"
proof (induction n rule: nat_digits.induct)
  case (1 n)
  show ?case
  proof (cases "n < 10")
    case True
    then show ?thesis by (simp add: nat_digits_small digits_val_def)
  next
    case False
    with "1.IH" have "digits_val (nat_digits (n div 10)) = n div 10" by simp
    with False show ?thesis by (simp add: nat_digits_large digits_val_snoc)
  qed
qed

lemma takeWhile_all: "(\<And>c. c \<in> set xs \<Longrightarrow> P c) \<Longrightarrow> takeWhile P xs = xs"
  by (induction xs) auto

lemma hd_nat_digits: "is_digit (hd (nat_digits n))"
  using nat_digits_digits [of "hd (nat_digits n)" n] nat_digits_not_Nil [of n] by simp

lemma nat_digits_no_hex_prefix:
  "\<not> prefix (js ''0x'') (nat_digits n)" "\<not> prefix (js ''0X'') (nat_digits n)"
proof -
  have x: "\<not> is_digit 120" "\<not> is_digit 88" by (simp_all add: is_digit_def)
  { fix c :: nat assume c: "\<not> is_digit c" and p: "prefix [48, c] (nat_digits n)"
    then obtain r where "nat_digits n = [48, c] @ r" by (auto simp: prefix_def)
    then have "c \<in> set (nat_digits n)" by simp
    with nat_digits_digits c have False by blast }
  with x show "\<not> prefix (js ''0x'') (nat_digits n)" "\<not> prefix (js ''0X'') (nat_digits n)"
    by (auto simp: js_def)
qed

lemma parseInt_digits_nat_digits: "parseInt_digits (nat_digits n) = Some n"
  using nat_digits_no_hex_prefix [of n] nat_digits_not_Nil [of n]
  by (simp add: parseInt_digits_def takeWhile_all nat_digits_digits digits_val_nat_digits)

lemma not_space_digit: "is_digit c \<Longrightarrow> \<not> is_space c"
  by (auto simp: is_digit_def is_space_def)

subsection \<open>Number::toString of an integer that is a double\<close>

lemma to_double_inj:
  assumes "0 < a" "a < 2 ^ 53" "0 < b" "b < 2 ^ 53"
    and "to_double a (Suc 0) = to_double b (Suc 0)"
  shows "a = b"
  using assms(5) to_double_safe [OF assms(1,2)] to_double_safe [OF assms(3,4)]
  by auto

lemma to_double_big:
  assumes "2 ^ 53 \<le> c" and "e \<le> 0"
  shows "to_double c (Suc 0) \<noteq> Some (m, e)"
proof -
  let ?l = "bit_length c"
  from assms(1) have c: "0 < c" by (simp add: less_le_trans [of 0 "2 ^ 53"])
  have "\<not> ?l \<le> 53"
  proof
    assume "?l \<le> 53"
    then have "(2::nat) ^ ?l \<le> 2 ^ 53" by (intro power_increasing) simp_all
    moreover have "c < 2 ^ ?l" using bit_length_bounds [OF c] by simp
    ultimately show False using assms(1) by linarith
  qed
  then have l: "54 \<le> ?l" by simp
  have lo: "2 ^ (?l - 1) \<le> c" using bit_length_bounds [OF c] by simp
  have be: "binary_exponent c (Suc 0) = int ?l - 1"
    using l lo by (simp add: binary_exponent_def bit_length_1 nat_diff_distrib)
  have ee: "max (binary_exponent c (Suc 0) - 52) (- 1074) = int ?l - 53" using l be by simp
  show ?thesis
    unfolding to_double_def ee using l assms(2) by (auto simp: Let_def)
qed

lemma double_fraction_safe:
  "l \<le> 53 \<Longrightarrow> double_fraction (n * 2 ^ (53 - l), int l - 53) = (n * 2 ^ (53 - l), 2 ^ (53 - l))"
  by (cases "l = 53") (simp_all add: double_fraction_def nat_diff_distrib)

lemma candidate_exact:
  assumes "0 < Q" and "k \<le> N" and "n mod 10 ^ (N - k) = 0" and "to_double n (Suc 0) = D"
  shows "candidate D (n * Q) Q (int N) k = Some (n div 10 ^ (N - k))"
proof (cases "k = N")
  case True
  have "candidate D (n * Q) Q (int N) N = Some n"
    using assms(1,4) by (simp add: candidate_def Let_def)
  with True show ?thesis by simp
next
  case False
  with assms(2) have k: "k < N" by simp
  let ?X = "(10::nat) ^ (N - k)"
  have j: "nat (int N - int k) = N - k" using k by auto
  have d: "(n * Q) div (Q * ?X) = n div ?X" using assms(1) by (simp add: mult.commute)
  have r: "(n * Q) mod (Q * ?X) = 0"
    using assms(3) by (metis mod_mult_mult1 mult.commute mult_zero_right)
  have b: "n div ?X * ?X = n" using assms(3) by (simp add: mod_eq_0_iff_dvd)
  show ?thesis
    using assms(4) k by (simp add: candidate_def Let_def j d r b)
qed

lemma candidate_none:
  assumes "0 < Q" and "k < N" and "n mod 10 ^ (N - k) \<noteq> 0"
    and "to_double (n div 10 ^ (N - k) * 10 ^ (N - k)) (Suc 0) \<noteq> D"
    and "to_double ((n div 10 ^ (N - k) + 1) * 10 ^ (N - k)) (Suc 0) \<noteq> D"
  shows "candidate D (n * Q) Q (int N) k = None"
proof -
  let ?X = "(10::nat) ^ (N - k)"
  have j: "nat (int N - int k) = N - k" using assms(2) by auto
  have d: "(n * Q) div (Q * ?X) = n div ?X" using assms(1) by (simp add: mult.commute)
  have "(n * Q) mod (Q * ?X) = Q * (n mod ?X)" by (metis mod_mult_mult1 mult.commute)
  with assms(1,3) have r: "(n * Q) mod (Q * ?X) \<noteq> 0" by simp
  have h: "to_double (Suc (n div ?X) * ?X) (Suc 0) \<noteq> D" using assms(5) by simp
  show ?thesis
    using r assms(2,4) h by (simp add: candidate_def Let_def j d)
qed

lemma shortest_finds:
  assumes "\<And>k'. k \<le> k' \<Longrightarrow> k' < K \<Longrightarrow> candidate D p q N k' = None"
    and "candidate D p q N K = Some s" and "k \<le> K" and "K < k + f"
  shows "shortest D p q N k f = (s, K)"
  using assms
proof (induction f arbitrary: k)
  case 0
  then show ?case by simp
next
  case (Suc f)
  show ?case
  proof (cases "k = K")
    case True
    with Suc.prems(2) show ?thesis by simp
  next
    case False
    with Suc.prems(3) have k: "k < K" by simp
    with Suc.prems(1) [of k] have "candidate D p q N k = None" by simp
    moreover have "shortest D p q N (Suc k) f = (s, K)"
      using Suc.prems k by (intro Suc.IH) auto
    ultimately show ?thesis by simp
  qed
qed

lemma nat_digits_length:
  "0 < n \<Longrightarrow> 10 ^ (length (nat_digits n) - 1) \<le> n \<and> n < 10 ^ length (nat_digits n)"
proof (induction n rule: nat_digits.induct)
  case (1 n)
  show ?case
  proof (cases "n < 10")
    case True
    with "1.prems" show ?thesis by (simp add: nat_digits_small)
  next
    case False
    let ?L = "length (nat_digits (n div 10))"
    from False have p: "0 < n div 10" by simp
    with "1.IH" False have ih: "10 ^ (?L - 1) \<le> n div 10" "n div 10 < 10 ^ ?L" by simp_all
    have L: "0 < ?L" using nat_digits_not_Nil [of "n div 10"] by simp
    then obtain j where j: "?L = Suc j" by (cases ?L) auto
    from ih(1) j have "10 * 10 ^ j \<le> 10 * (n div 10)" by simp
    then have lo: "10 ^ ?L \<le> n" unfolding j by simp
    from ih(2) have "n < 10 * 10 ^ ?L" by simp
    with lo False show ?thesis by (simp add: nat_digits_large)
  qed
qed

lemma nat_digits_times: "0 < s \<Longrightarrow> nat_digits (s * 10 ^ t) = nat_digits s @ replicate t 48"
proof (induction t)
  case 0
  then show ?case by simp
next
  case (Suc t)
  let ?x = "s * 10 ^ Suc t"
  have "1 * 10 ^ Suc 0 \<le> s * 10 ^ Suc t"
    using Suc.prems by (intro mult_le_mono power_increasing) simp_all
  then have "10 \<le> ?x" by simp
  then have "nat_digits ?x = nat_digits (?x div 10) @ [48 + ?x mod 10]"
    by (rule nat_digits_large)
  also have "?x div 10 = s * 10 ^ t" by simp
  also have "?x mod 10 = 0" by simp
  finally show ?case using Suc by (simp add: replicate_append_same)
qed

lemma decimal_decomposition: "0 < (n::nat) \<Longrightarrow> \<exists>s t. n = s * 10 ^ t \<and> s mod 10 \<noteq> 0"
proof (induction n rule: less_induct)
  case (less n)
  show ?case
  proof (cases "n mod 10 = 0")
    case False
    then have "n = n * 10 ^ 0 \<and> n mod 10 \<noteq> 0" by simp
    then show ?thesis by blast
  next
    case True
    with less.prems have "n div 10 < n" "0 < n div 10" by auto
    from less.IH [OF this] obtain s t where st: "n div 10 = s * 10 ^ t" "s mod 10 \<noteq> 0" by blast
    from True have "n = 10 * (n div 10)" by auto
    with st have "n = s * 10 ^ Suc t \<and> s mod 10 \<noteq> 0" by simp
    then show ?thesis by blast
  qed
qed

lemma strip_zeros_nat_digits: "s mod 10 \<noteq> 0 \<Longrightarrow> strip_zeros (nat_digits s) = nat_digits s"
proof -
  assume s: "s mod 10 \<noteq> 0"
  have "\<exists>xs. nat_digits s = xs @ [48 + s mod 10]"
    by (cases "s < 10") (simp_all add: nat_digits_small nat_digits_large)
  then obtain xs where "nat_digits s = xs @ [48 + s mod 10]" by blast
  with s show ?thesis by (simp add: strip_zeros_def)
qed

lemma power_ten_not_dvd:
  assumes "(s::nat) mod 10 \<noteq> 0" and "t < m"
  shows "(s * 10 ^ t) mod 10 ^ m \<noteq> 0"
proof
  assume "(s * 10 ^ t) mod 10 ^ m = 0"
  then have "(10::nat) ^ m dvd s * 10 ^ t" by (simp add: mod_eq_0_iff_dvd)
  moreover have "(10::nat) ^ Suc t dvd 10 ^ m" using assms(2) by (intro le_imp_power_dvd) simp
  ultimately have "(10::nat) ^ Suc t dvd s * 10 ^ t" by (rule dvd_trans [rotated])
  then have "10 * 10 ^ t dvd s * (10::nat) ^ t" by simp
  then have "10 dvd s" by simp
  with assms(1) show False by (simp add: mod_eq_0_iff_dvd)
qed

text \<open>
  Number::toString of an integer below \<open>2 ^ 53\<close>: its decimal digits. The least number
  of digits that read back as the integer is the number of its digits without the
  zeros at its end.
\<close>

lemma Number_toString_safe:
  assumes "0 < n" and "n < 2 ^ 53"
  shows "Number_toString neg n (Suc 0) = (if neg then [45] else []) @ nat_digits n"
proof -
  from decimal_decomposition [OF assms(1)] obtain s t where
    n: "n = s * 10 ^ t" and s: "s mod 10 \<noteq> 0" by blast
  from s have sp: "0 < s" by (cases s) auto
  let ?K = "length (nat_digits s)"
  let ?N = "?K + t"
  let ?l = "bit_length n"
  let ?Q = "(2::nat) ^ (53 - ?l)"
  let ?d = "(n * ?Q, int ?l - 53)"
  have N: "length (nat_digits n) = ?N" unfolding n by (simp add: nat_digits_times [OF sp])
  have l: "?l \<le> 53" using assms(2) by (rule bit_length_le)
  have D: "to_double n (Suc 0) = Some ?d" using assms by (rule to_double_safe)
  have F: "double_fraction ?d = (n * ?Q, ?Q)" using l by (rule double_fraction_safe)
  have E: "decimal_exponent (n * ?Q) ?Q = int ?N"
    using assms(1) by (simp add: decimal_exponent_def N)
  have K: "0 < ?K" using nat_digits_not_Nil [of s] by simp
  have lo: "10 ^ (?N - 1) \<le> n" and hi: "n < 10 ^ ?N"
    using nat_digits_length [OF assms(1)] unfolding N by simp_all
  have "(10::nat) ^ (?N - 1) < 10 ^ 16"
    using lo assms(2) by (simp add: le_less_trans [of _ n])
  then have "?N - 1 < 16" by (rule power_less_imp_less_exp [rotated]) simp
  then have N16: "?N \<le> 16" by simp
  have none: "candidate (Some ?d) (n * ?Q) ?Q (int ?N) k = None" if k: "1 \<le> k" "k < ?K" for k
  proof (rule candidate_none)
    let ?X = "(10::nat) ^ (?N - k)"
    show "0 < ?Q" by simp
    show "k < ?N" using k by simp
    show m: "n mod ?X \<noteq> 0" unfolding n using k by (intro power_ten_not_dvd [OF s]) simp
    have "?X \<le> 10 ^ (?N - 1)" using k by (intro power_increasing) simp_all
    from this lo have X: "?X \<le> n" by (rule le_trans)
    then have c0: "0 < n div ?X * ?X" by (simp add: div_greater_zero_iff)
    have cn: "n div ?X * ?X < n" using m by (metis div_mult_mod_eq less_add_same_cancel1 neq0_conv)
    show "to_double (n div ?X * ?X) (Suc 0) \<noteq> Some ?d"
    proof
      assume "to_double (n div ?X * ?X) (Suc 0) = Some ?d"
      with D have "to_double (n div ?X * ?X) (Suc 0) = to_double n (Suc 0)" by simp
      from to_double_inj [OF c0 _ assms this] cn assms(2) show False by simp
    qed
    have hn: "n < (n div ?X + 1) * ?X"
      by (metis add.commute div_mult_mod_eq mod_less_divisor mult.commute mult_Suc_right
            nat_add_left_cancel_less plus_1_eq_Suc zero_less_numeral zero_less_power Suc_eq_plus1)
    show "to_double ((n div ?X + 1) * ?X) (Suc 0) \<noteq> Some ?d"
    proof (cases "(n div ?X + 1) * ?X < 2 ^ 53")
      case True
      show ?thesis
      proof
        assume "to_double ((n div ?X + 1) * ?X) (Suc 0) = Some ?d"
        with D have "to_double ((n div ?X + 1) * ?X) (Suc 0) = to_double n (Suc 0)" by simp
        from to_double_inj [OF _ True assms this] hn assms(1) show False by simp
      qed
    next
      case False
      then have "2 ^ 53 \<le> (n div ?X + 1) * ?X" by simp
      from to_double_big [OF this, of "int ?l - 53"] l show ?thesis by simp
    qed
  qed
  have "n mod 10 ^ (?N - ?K) = 0" "n div 10 ^ (?N - ?K) = s" unfolding n by simp_all
  with candidate_exact [of ?Q ?K ?N n "Some ?d", OF _ _ _ D]
  have some: "candidate (Some ?d) (n * ?Q) ?Q (int ?N) ?K = Some s" by simp
  have K1: "1 \<le> ?K" using K by linarith
  have K17: "?K < 1 + 17" using N16 by linarith
  have S: "shortest (Some ?d) (n * ?Q) ?Q (int ?N) 1 17 = (s, ?K)"
    by (rule shortest_finds [OF none some K1 K17])
  have fmt: "format_digits (nat_digits s) (int ?N) = nat_digits n"
    using N16 unfolding n by (simp add: format_digits_def Let_def nat_digits_times [OF sp])
  have E': "decimal_exponent (n * ?Q) ?Q = int ?K + int t" using E by simp
  have S': "shortest (Some ?d) (n * ?Q) ?Q (int ?K + int t) (Suc 0) 17 = (s, ?K)"
    using S by simp
  have fmt': "format_digits (nat_digits s) (int ?K + int t) = nat_digits n" using fmt by simp
  show ?thesis
    using assms(1)
    by (simp add: Number_toString_def Let_def D F E' S' strip_zeros_nat_digits [OF s] fmt')
qed

lemma Integer_toString_safe:
  assumes "\<bar>n\<bar> < 9007199254740992"
  shows "Integer_toString n = int_text n"
proof (cases "n = 0")
  case True
  then show ?thesis
    by (simp add: Integer_toString_def Number_toString_def int_text_def nat_digits_small)
next
  case False
  with assms have "0 < nat \<bar>n\<bar>" "nat \<bar>n\<bar> < 2 ^ 53" by simp_all
  from Number_toString_safe [OF this, of "n < 0"] show ?thesis
    by (simp add: Integer_toString_def int_text_def)
qed

subsection \<open>\<^verbatim>\<open>parseInt\<close> of an integer that is a double\<close>

lemma parseInt_JNum:
  assumes "\<bar>n\<bar> < 9007199254740992"
  shows "parseInt (JNum n) = Integer n"
proof (cases "n < 0")
  case True
  with assms have "nat (- n) < 2 ^ 53" by simp
  from integer_number_safe [OF this, of True] True
  have "parseInt_string (45 # nat_digits (nat (- n))) = Integer n"
    by (simp add: parseInt_string_def is_space_def parseInt_digits_nat_digits)
  with True assms show ?thesis by (simp add: parseInt_def Integer_toString_safe int_text_def)
next
  case False
  with assms have b: "nat n < 2 ^ 53" by simp
  obtain c cs where d: "nat_digits (nat n) = c # cs"
    using nat_digits_not_Nil [of "nat n"] by (cases "nat_digits (nat n)") auto
  with hd_nat_digits [of "nat n"] have c: "is_digit c" by simp
  then have "\<not> is_space c" "c \<noteq> 45" "c \<noteq> 43"
    by (auto simp: is_digit_def is_space_def)
  with d parseInt_digits_nat_digits [of "nat n"] False integer_number_safe [OF b, of False]
  have "parseInt_string (nat_digits (nat n)) = Integer n"
    by (simp add: parseInt_string_def)
  with False assms show ?thesis by (simp add: parseInt_def Integer_toString_safe int_text_def)
qed

subsection \<open>\<^verbatim>\<open>getAllIds\<close> and the seed\<close>

lemma getAllIds_scan:
  "(scan_clean v \<longrightarrow>
      (case getAllIds v of Inl e \<Rightarrow> False | Inr r \<Rightarrow> spread r = scan_ids v)
      \<and> (no_own_id v \<longrightarrow> getAllIds v = Inr (JArr (scan_ids v))))"
  "(list_all scan_clean ys \<longrightarrow> flatMap_getAllIds ys = Inr (concat (map scan_ids ys)))"
  "(list_all scan_clean vs \<longrightarrow> flatMap_values vs = Inr (concat (map scan_ids vs)))"
proof (induction v and ys and vs rule: getAllIds_flatMap_getAllIds_flatMap_values.induct)
  case (8 kvs)
  show ?case
  proof (cases "map_of kvs (js ''id'')")
    case None
    have m: "map scan_ids (map snd kvs) = map (\<lambda>kv. scan_ids (snd kv)) kvs" by simp
    have l: "list_all scan_clean (map snd kvs) = list_all (\<lambda>kv. scan_clean (snd kv)) kvs"
      by (simp add: list_all_iff)
    from None 8 show ?thesis
      by (auto simp: spread_def no_own_id_def m l simp del: map_map)
  next
    case (Some i)
    then show ?thesis
      by (cases i) (auto simp: spread_def no_own_id_def)
  qed
next
  case (12 v vs)
  then show ?case
    by (cases v) (auto simp: spread_def split: sum.splits)
qed (auto simp: spread_def no_own_id_def split: sum.splits)


lemma scan_ids_numbers:
  "scan_clean v \<Longrightarrow> i \<in> set (scan_ids v) \<Longrightarrow>
     \<exists>n. i = JNum n \<and> n \<noteq> 0 \<and> \<bar>n\<bar> < 9007199254740992"
proof (induction v arbitrary: i rule: scan_ids.induct)
  case (1 kvs)
  show ?case
  proof (cases "map_of kvs (js ''id'')")
    case None
    with "1.prems" obtain kv where kv: "kv \<in> set kvs" "i \<in> set (scan_ids (snd kv))"
      "scan_clean (snd kv)"
      by (auto simp: list_all_iff)
    with "1.IH" [OF None kv(1)] show ?thesis by blast
  next
    case (Some j)
    with "1.prems" show ?thesis by (cases j) auto
  qed
next
  case (2 xs)
  then show ?case by (auto simp: list_all_iff)
qed auto

lemma sorted_last_Max: "sorted xs \<Longrightarrow> xs \<noteq> [] \<Longrightarrow> last xs = Max (set xs)"
proof (induction xs)
  case Nil
  then show ?case by simp
next
  case (Cons x xs)
  show ?case
  proof (cases "xs = []")
    case True
    then show ?thesis by simp
  next
    case False
    with Cons have l: "last xs = Max (set xs)" by simp
    from False have "last xs \<in> set xs" by simp
    with Cons.prems have "x \<le> last xs" by auto
    with l False show ?thesis by (simp add: max_def)
  qed
qed

lemma hd_rev_sort_Max: "ns \<noteq> [] \<Longrightarrow> hd (rev (sort ns)) = Max (set (ns :: int list))"
proof -
  assume n: "ns \<noteq> []"
  then have s: "sort ns \<noteq> []" by (metis length_0_conv length_sort)
  then have "hd (rev (sort ns)) = last (sort ns)" by (simp add: hd_rev)
  also have "\<dots> = Max (set (sort ns))" using s by (simp add: sorted_last_Max)
  finally show ?thesis by simp
qed

lemma sort_descending_numbers:
  "sort_descending E (map Integer ns) = map Integer (rev (sort ns))"
proof -
  have a: "filter (\<lambda>x. x = Infinite b) (map Integer ns) = []" for b
    by (induction ns) simp_all
  have c: "concat (map (\<lambda>x. case x of Integer n \<Rightarrow> [n] | _ \<Rightarrow> []) (map Integer ns)) = ns"
    by (induction ns) simp_all
  have "NaN \<notin> set (map Integer ns)" by auto
  then show ?thesis by (simp only: sort_descending_def descending_def a c if_True) simp
qed

lemma first_or_1_numbers:
  "0 \<notin> set ns \<Longrightarrow>
     first_or_1 (map Integer (rev (sort ns))) = Integer (if ns = [] then 1 else Max (set ns))"
proof (cases "ns = []")
  case True
  then show ?thesis by (simp add: first_or_1_def)
next
  case False
  assume z: "0 \<notin> set ns"
  from False have s: "rev (sort ns) \<noteq> []" by (metis length_0_conv length_sort rev_is_Nil_conv)
  then obtain m ms where r: "rev (sort ns) = m # ms" by (cases "rev (sort ns)") auto
  with hd_rev_sort_Max [OF False] have m: "m = Max (set ns)" by simp
  from False have "Max (set ns) \<in> set ns" by simp
  with z m have "m \<noteq> 0" by metis
  with r m False show ?thesis by (simp add: first_or_1_def)
qed

lemma maxId_scan:
  assumes "scan_clean payload" and "no_own_id payload"
  shows "maxId E payload = Inr (Integer (max_or_1 (scan_ids payload)))"
proof -
  from getAllIds_scan(1) [of payload] assms
  have g: "getAllIds payload = Inr (JArr (scan_ids payload))" by simp
  have num: "\<forall>i\<in>set (scan_ids payload).
      i = JNum (id_number i) \<and> id_number i \<noteq> 0 \<and> \<bar>id_number i\<bar> < 9007199254740992"
    using scan_ids_numbers [OF assms(1)] by (fastforce simp: id_number_def)
  have "parseInt i = Integer (id_number i)" if "i \<in> set (scan_ids payload)" for i
    using num that parseInt_JNum [of "id_number i"] by metis
  then have p: "map parseInt (scan_ids payload) = map Integer (map id_number (scan_ids payload))"
    by simp
  from num have z: "0 \<notin> set (map id_number (scan_ids payload))" by auto
  show ?thesis
    unfolding maxId_def g
    by (simp add: p sort_descending_numbers first_or_1_numbers [OF z] max_or_1_def
          del: map_map)
qed

lemma deliver_ids_counter [simp]: "ids_counter (deliver M p ev l a) = ids_counter a"
  by (cases l) simp_all

lemma fold_deliver_ids_counter [simp]:
  "ids_counter (fold (deliver M p ev) ls a) = ids_counter a"
  by (induction ls arbitrary: a) simp_all

lemma import_install_rejects:
  "visuals_of E payload = Inl e \<Longrightarrow>
     App_import_install M E seed payload a = Inl (e, a\<lparr>ids_counter := seed\<rparr>)"
  by (simp add: App_import_install_def Presentation_import_def)

lemma import_install_result:
  assumes "visuals_of E payload = Inr vs" and "ev = \<lparr>added = vs, removed = []\<rparr>"
  shows "\<exists>a'. App_import_install M E seed payload a = Inr a'
           \<and> delivered a' = delivered a @ [(Reconcile, ev)]
           \<and> presentation a' = \<lparr>visuals = vs, listeners = [Reconcile, MaybePersist]\<rparr>
           \<and> ids_counter a' = seed"
  using assms
  by (simp add: App_import_install_def Presentation_import_def dispatch_def)

text \<open>
  C3, as amended. On a payload that carries no \<^verbatim>\<open>id\<close> itself, where every \<^verbatim>\<open>id\<close> the
  scan meets is an integer other than 0 and below \<open>2 ^ 53\<close> in magnitude and the scan
  meets no \<^verbatim>\<open>null\<close>, \<^verbatim>\<open>import\<close>
  seeds the counter of \<^verbatim>\<open>Ids\<close> with the maximum of the ids found by recursing into
  every nested array and every nested object that carries no \<^verbatim>\<open>id\<close> (an object that
  carries one gives it and is not searched), or with 1 when there is none. The counter
  is set before the new Presentation reads the payload: when that fails, the counter
  is already the seed.
\<close>

theorem import_seeds_allocator:
  assumes "scan_clean payload" and "no_own_id payload" and "App_import_cleanup M a = Inr a1"
  shows "(\<forall>e. visuals_of E payload = Inl e \<longrightarrow>
            App_import M E a payload
              = Inl (e, a1\<lparr>ids_counter := Integer (max_or_1 (scan_ids payload))\<rparr>)) \<and>
         (\<forall>vs. visuals_of E payload = Inr vs \<longrightarrow>
            (\<exists>a'. App_import M E a payload = Inr a'
               \<and> ids_counter a' = Integer (max_or_1 (scan_ids payload))))"
proof -
  have i: "App_import M E a payload
             = App_import_install M E (Integer (max_or_1 (scan_ids payload))) payload a1"
    by (simp add: App_import_def assms(3) maxId_scan [OF assms(1,2)])
  show ?thesis
  proof (intro conjI allI impI)
    fix e assume "visuals_of E payload = Inl e"
    then show "App_import M E a payload
        = Inl (e, a1\<lparr>ids_counter := Integer (max_or_1 (scan_ids payload))\<rparr>)"
      unfolding i by (rule import_install_rejects)
  next
    fix vs assume "visuals_of E payload = Inr vs"
    from import_install_result [OF this refl, of M "Integer (max_or_1 (scan_ids payload))" a1]
    show "\<exists>a'. App_import M E a payload = Inr a'
               \<and> ids_counter a' = Integer (max_or_1 (scan_ids payload))"
      unfolding i by blast
  qed
qed

subsection \<open>\<^verbatim>\<open>import\<close>: which listener hears what\<close>

lemma import_result:
  assumes "App_import_cleanup M a = Inr a1" and "maxId E payload = Inr seed"
    and "visuals_of E payload = Inr vs" and "ev = \<lparr>added = vs, removed = []\<rparr>"
  shows "\<exists>a'. App_import M E a payload = Inr a'
           \<and> delivered a' = delivered a1 @ [(Reconcile, ev)]
           \<and> presentation a' = \<lparr>visuals = vs, listeners = [Reconcile, MaybePersist]\<rparr>
           \<and> ids_counter a' = seed"
  using import_install_result [OF assms(3,4), of M seed a1]
  by (simp add: App_import_def assms(1,2))

lemma notify_both:
  assumes "listeners p = [Reconcile, MaybePersist]"
  shows "delivered (snd (dispatch M p ev b)) = delivered b @ [(Reconcile, ev), (MaybePersist, ev)]"
    and "listeners (fst (dispatch M p ev b)) = [Reconcile, MaybePersist]"
  using assms by (simp_all add: dispatch_both)

lemma addOrReplaceVisual_both:
  assumes "listeners p = [Reconcile, MaybePersist]" and "ev = \<lparr>added = [v], removed = []\<rparr>"
  shows "delivered (snd (Presentation_addOrReplaceVisual M v p b))
           = delivered b @ [(Reconcile, ev), (MaybePersist, ev)]
         \<and> listeners (fst (Presentation_addOrReplaceVisual M v p b)) = [Reconcile, MaybePersist]"
  unfolding Presentation_addOrReplaceVisual_def assms(2)
  by (rule conjI; rule notify_both) (simp_all add: assms(1))

lemma removeAllVisuals_both:
  assumes "listeners p = [Reconcile, MaybePersist]" and "ev = \<lparr>added = [], removed = visuals p\<rparr>"
  shows "delivered (snd (Presentation_removeAllVisuals M p b))
           = delivered b @ [(Reconcile, ev), (MaybePersist, ev)]
         \<and> listeners (fst (Presentation_removeAllVisuals M p b)) = [Reconcile, MaybePersist]"
  unfolding Presentation_removeAllVisuals_def assms(2)
  by (rule conjI; rule notify_both) (simp_all add: assms(1))

lemma removeVisual_both:
  assumes "listeners p = [Reconcile, MaybePersist]" and "ev = \<lparr>added = [], removed = [v]\<rparr>"
    and "List.find (\<lambda>x. vid x = i) (visuals p) = Some v"
  shows "delivered (snd (Presentation_removeVisual M i p b))
           = delivered b @ [(Reconcile, ev), (MaybePersist, ev)]
         \<and> listeners (fst (Presentation_removeVisual M i p b)) = [Reconcile, MaybePersist]"
  unfolding Presentation_removeVisual_def assms(2,3) option.case
  by (rule conjI; rule notify_both) (simp_all add: assms(1))

lemma moveVisual_silent:
  "delivered (snd (Presentation_moveVisual i pos p b)) = delivered b
   \<and> listeners (fst (Presentation_moveVisual i pos p b)) = listeners p"
  by (simp add: Presentation_moveVisual_def Let_def split: option.splits)

text \<open>
  C10, as amended. The notification of \<^verbatim>\<open>presentation.import(data)\<close> is delivered to
  the view listener alone: the persistence listener is added after it. From then on
  the Presentation has both listeners, and every notification it emits, from
  \<^verbatim>\<open>addOrReplaceVisual\<close>, \<^verbatim>\<open>removeAllVisuals\<close> and \<^verbatim>\<open>removeVisual\<close> of an id that is
  there, is delivered to both, in this order. \<^verbatim>\<open>moveVisual\<close> emits none and reaches
  neither.
\<close>

theorem import_notification_listeners:
  assumes "App_import_cleanup M a = Inr a1" and "maxId E payload = Inr seed"
    and "visuals_of E payload = Inr vs"
  shows "\<exists>a'. App_import M E a payload = Inr a'
     \<and> delivered a' = delivered a1 @ [(Reconcile, \<lparr>added = vs, removed = []\<rparr>)]
     \<and> listeners (presentation a') = [Reconcile, MaybePersist]
     \<and> (\<forall>p b v. listeners p = listeners (presentation a') \<longrightarrow>
           delivered (snd (Presentation_addOrReplaceVisual M v p b))
             = delivered b @ [(Reconcile, \<lparr>added = [v], removed = []\<rparr>),
                              (MaybePersist, \<lparr>added = [v], removed = []\<rparr>)]
           \<and> listeners (fst (Presentation_addOrReplaceVisual M v p b)) = listeners p)
     \<and> (\<forall>p b. listeners p = listeners (presentation a') \<longrightarrow>
           delivered (snd (Presentation_removeAllVisuals M p b))
             = delivered b @ [(Reconcile, \<lparr>added = [], removed = visuals p\<rparr>),
                              (MaybePersist, \<lparr>added = [], removed = visuals p\<rparr>)]
           \<and> listeners (fst (Presentation_removeAllVisuals M p b)) = listeners p)
     \<and> (\<forall>p b i v. listeners p = listeners (presentation a')
             \<and> List.find (\<lambda>x. vid x = i) (visuals p) = Some v \<longrightarrow>
           delivered (snd (Presentation_removeVisual M i p b))
             = delivered b @ [(Reconcile, \<lparr>added = [], removed = [v]\<rparr>),
                              (MaybePersist, \<lparr>added = [], removed = [v]\<rparr>)]
           \<and> listeners (fst (Presentation_removeVisual M i p b)) = listeners p)
     \<and> (\<forall>p b i pos. listeners p = listeners (presentation a') \<longrightarrow>
           delivered (snd (Presentation_moveVisual i pos p b)) = delivered b
           \<and> listeners (fst (Presentation_moveVisual i pos p b)) = listeners p)"
proof -
  from import_result [OF assms refl]
  obtain a' where a': "App_import M E a payload = Inr a'"
    "delivered a' = delivered a1 @ [(Reconcile, \<lparr>added = vs, removed = []\<rparr>)]"
    "presentation a' = \<lparr>visuals = vs, listeners = [Reconcile, MaybePersist]\<rparr>"
    by blast
  from a'(3) have l: "listeners (presentation a') = [Reconcile, MaybePersist]" by simp
  show ?thesis
    using a'(1,2) l addOrReplaceVisual_both [OF _ refl] removeAllVisuals_both [OF _ refl]
      removeVisual_both [OF _ refl] moveVisual_silent
    by (intro exI [of _ a']) simp
qed

subsection \<open>Examples\<close>

text \<open>The definitions that evaluate the examples.\<close>

lemmas app_eval =
  App_constructor_def sample_app_def sample_loaded_def sample_page_def sample_rows_def
  sample_visual_def sample_env_def sample_payload_def sample_payload_of_def
  sample_visuals_of_def record_visual_def visual_record_def nested_payload_def
  is_visual_root_def is_selected_root_def is_row_def App_findVisualUI_def
  Integer_toString_safe

lemma sample_cleanup_empty: "App_import_cleanup M sample_app = Inr sample_app"
  by (simp add: App_import_cleanup_def app_eval)

lemma sample_visuals:
  "visuals_of sample_env sample_payload
     = Inr [sample_visual 3 10 ''fix this'', sample_visual 7 11 ''and this'',
            sample_visual 5 10 ''this too'']"
  by (simp add: app_eval js_def)

lemma sample_scan:
  "scan_clean sample_payload" "no_own_id sample_payload"
  "scan_ids sample_payload = [JNum 3, JNum 7, JNum 5]"
  by (simp_all add: app_eval no_own_id_def js_def)

lemma sample_maxId: "maxId E sample_payload = Inr (Integer 7)"
  using maxId_scan [OF sample_scan(1,2)]
  by (simp add: sample_scan(3) max_or_1_def id_number_def)

theorem import_seeds_allocator_witness:
  "(case App_import sample_MAGIC sample_env sample_app sample_payload of
      Inl r \<Rightarrow> False
    | Inr a' \<Rightarrow> ids_counter a' = Integer 7)"
proof -
  from import_seeds_allocator [OF sample_scan(1,2) sample_cleanup_empty, of sample_env]
       sample_visuals
  obtain a' where "App_import sample_MAGIC sample_env sample_app sample_payload = Inr a'"
    "ids_counter a' = Integer (max_or_1 (scan_ids sample_payload))"
    by blast
  then show ?thesis by (simp add: sample_scan(3) max_or_1_def id_number_def)
qed

lemma nested_maxId: "maxId E nested_payload = Inr (Integer 5)"
proof -
  have g: "getAllIds nested_payload = Inr (JArr [JNum 3, JNum 5])"
    by (simp add: nested_payload_def js_def spread_def)
  show ?thesis
    unfolding maxId_def g using sort_descending_numbers [of E "[3, 5]"]
    by (simp add: parseInt_JNum first_or_1_def)
qed

text \<open>
  C3 as stated fails on \<open>nested_payload\<close>: its ids are 3, 7 and 5, and the seed is 5,
  since the record with the id 3 is not searched for the id 7 inside it.
\<close>

theorem nested_ids_counterexample:
  "all_ids nested_payload = [JNum 3, JNum 7, JNum 5]
   \<and> max_or_1 (all_ids nested_payload) = 7
   \<and> maxId sample_env nested_payload = Inr (Integer 5)
   \<and> (case App_import sample_MAGIC (sample_env\<lparr>visuals_of := \<lambda>p. Inr []\<rparr>) sample_app nested_payload of
        Inl r \<Rightarrow> False
      | Inr a' \<Rightarrow> ids_counter a' = Integer 5)"
proof -
  have 1: "all_ids nested_payload = [JNum 3, JNum 7, JNum 5]"
    by (simp add: nested_payload_def js_def)
  have 2: "max_or_1 (all_ids nested_payload) = 7"
    unfolding 1 by (simp add: max_or_1_def id_number_def)
  from import_result [OF sample_cleanup_empty nested_maxId, of "sample_env\<lparr>visuals_of := \<lambda>p. Inr []\<rparr>" "[]", OF _ refl]
  obtain a' where
    "App_import sample_MAGIC (sample_env\<lparr>visuals_of := \<lambda>p. Inr []\<rparr>) sample_app nested_payload = Inr a'"
    "ids_counter a' = Integer 5"
    by auto
  with 1 2 nested_maxId show ?thesis by simp
qed

lemma sample_loaded_facts:
  "visuals (presentation sample_loaded) \<noteq> []"
  "listeners (presentation sample_loaded) = [Reconcile, MaybePersist]"
  "\<forall>v\<in>set (visuals (presentation sample_loaded)).
     length (filter (is_visual_root (vid v)) (document sample_loaded)) \<le> 1"
  by (simp_all add: app_eval js_def int_text_def nat_digits_small)

theorem import_awaits_cleanup_witness:
  "(case App_import_cleanup sample_MAGIC sample_loaded of
      Inl r \<Rightarrow> False
    | Inr a1 \<Rightarrow>
        map fst (delivered a1) = [Reconcile, MaybePersist, WaitEvent]
        \<and> App_findVisualUI a1 (JNum 2) = None \<and> App_findVisualUI a1 (JNum 3) = None
        \<and> visuals (presentation a1) = [] \<and> ids_counter a1 = Integer 3)"
proof -
  from import_awaits_cleanup [OF sample_loaded_facts refl, of sample_MAGIC]
  obtain a1 where a1: "App_import_cleanup sample_MAGIC sample_loaded = Inr a1"
    "delivered a1 = delivered sample_loaded
       @ [(Reconcile, \<lparr>added = [], removed = visuals (presentation sample_loaded)\<rparr>),
          (MaybePersist, \<lparr>added = [], removed = visuals (presentation sample_loaded)\<rparr>),
          (WaitEvent, \<lparr>added = [], removed = visuals (presentation sample_loaded)\<rparr>)]"
    "\<forall>v\<in>set (visuals (presentation sample_loaded)). App_findVisualUI a1 (vid v) = None"
    "visuals (presentation a1) = []" "ids_counter a1 = ids_counter sample_loaded"
    by blast
  from a1(3) have "App_findVisualUI a1 (JNum 2) = None" "App_findVisualUI a1 (JNum 3) = None"
    by (simp_all add: sample_loaded_def sample_visual_def)
  moreover from a1(2) have "map fst (delivered a1) = [Reconcile, MaybePersist, WaitEvent]"
    by (simp add: sample_loaded_def App_constructor_def)
  moreover from a1(5) have "ids_counter a1 = Integer 3"
    by (simp add: sample_loaded_def App_constructor_def)
  ultimately show ?thesis using a1(1,4) by simp
qed

text \<open>
  C10 as stated fails on \<^verbatim>\<open>moveVisual\<close>: after the import of \<open>sample_payload\<close>, moving
  the annotation 5 to the front changes the sequence and calls no listener.
\<close>

theorem moveVisual_counterexample:
  "(case App_import sample_MAGIC sample_env sample_app sample_payload of
      Inl r \<Rightarrow> False
    | Inr a' \<Rightarrow>
        map vid (visuals (presentation a')) = [JNum 3, JNum 7, JNum 5]
        \<and> map vid (visuals (fst (Presentation_moveVisual (JNum 5) 0 (presentation a') a')))
            = [JNum 5, JNum 3, JNum 7]
        \<and> delivered (snd (Presentation_moveVisual (JNum 5) 0 (presentation a') a'))
            = delivered a')"
proof -
  from import_result [OF sample_cleanup_empty sample_maxId sample_visuals refl]
  obtain a' where a': "App_import sample_MAGIC sample_env sample_app sample_payload = Inr a'"
    "presentation a' =
       \<lparr>visuals = [sample_visual 3 10 ''fix this'', sample_visual 7 11 ''and this'',
                   sample_visual 5 10 ''this too''],
        listeners = [Reconcile, MaybePersist]\<rparr>"
    by blast
  show ?thesis
    unfolding a'(1) by (simp add: a'(2) Presentation_moveVisual_def sample_visual_def)
qed

theorem import_notification_listeners_witness:
  "(case App_import sample_MAGIC sample_env sample_app sample_payload of
      Inl r \<Rightarrow> False
    | Inr a' \<Rightarrow>
        map fst (delivered a') = [Reconcile]
        \<and> listeners (presentation a') = [Reconcile, MaybePersist]
        \<and> map fst (delivered (snd (Presentation_removeAllVisuals sample_MAGIC (presentation a') a')))
            = [Reconcile, Reconcile, MaybePersist])"
proof -
  from import_notification_listeners [OF sample_cleanup_empty sample_maxId sample_visuals]
  obtain a' where a': "App_import sample_MAGIC sample_env sample_app sample_payload = Inr a'"
    "delivered a' = delivered sample_app
       @ [(Reconcile, \<lparr>added = [sample_visual 3 10 ''fix this'', sample_visual 7 11 ''and this'',
                                 sample_visual 5 10 ''this too''], removed = []\<rparr>)]"
    "listeners (presentation a') = [Reconcile, MaybePersist]"
    "\<forall>p b. listeners p = listeners (presentation a') \<longrightarrow>
           delivered (snd (Presentation_removeAllVisuals sample_MAGIC p b))
             = delivered b @ [(Reconcile, \<lparr>added = [], removed = visuals p\<rparr>),
                              (MaybePersist, \<lparr>added = [], removed = visuals p\<rparr>)]
           \<and> listeners (fst (Presentation_removeAllVisuals sample_MAGIC p b)) = listeners p"
    by blast
  from a'(4) have "delivered (snd (Presentation_removeAllVisuals sample_MAGIC (presentation a') a'))
             = delivered a' @ [(Reconcile, \<lparr>added = [], removed = visuals (presentation a')\<rparr>),
                              (MaybePersist, \<lparr>added = [], removed = visuals (presentation a')\<rparr>)]"
    by blast
  with a'(1,2,3) show ?thesis by (simp add: sample_app_def App_constructor_def)
qed

theorem selectVisual_single_choice_witness:
  "App_selectVisual sample_MAGIC sample_loaded (JNum 2) = Inr sample_loaded
   \<and> (case App_selectVisual sample_MAGIC sample_loaded (JNum 3) of
        Inl r \<Rightarrow> False
      | Inr a' \<Rightarrow>
          map classes (document a')
            = [[], [sample_MAGIC, js ''visual-root''], [],
               [sample_MAGIC, js ''visual-root'', js ''selected'']]
          \<and> select_events a' = [JNum 3]
          \<and> length (filter (is_selected_root sample_MAGIC) (document a')) \<le> 1)"
proof -
  let ?e2 = "\<lparr>visual_id = Some (js ''2''),
       classes = [sample_MAGIC, js ''visual-root'', js ''selected''],
       line_number = None, shown = js ''fix this''\<rparr>"
  let ?e3 = "\<lparr>visual_id = Some (js ''3''), classes = [sample_MAGIC, js ''visual-root''],
       line_number = None, shown = js ''and this''\<rparr>"
  have f2: "App_findVisualUI sample_loaded (JNum 2) = Some ?e2 \<and> js ''selected'' \<in> set (classes ?e2)"
    by (simp add: app_eval js_def int_text_def nat_digits_small)
  have f3: "App_findVisualUI sample_loaded (JNum 3) = Some ?e3 \<and> js ''selected'' \<notin> set (classes ?e3)"
    by (simp add: app_eval js_def int_text_def nat_digits_small sample_MAGIC_def)
  have one: "length (filter (is_selected_root sample_MAGIC) (document sample_loaded)) \<le> 1"
    by (simp add: app_eval js_def sample_MAGIC_def)
  from selectVisual_single_choice [of sample_loaded "JNum 2" ?e2 sample_MAGIC] f2
  have r2: "App_selectVisual sample_MAGIC sample_loaded (JNum 2) = Inr sample_loaded" by blast
  from selectVisual_single_choice [of sample_loaded "JNum 3" ?e3 sample_MAGIC] f3
  obtain a' where a': "App_selectVisual sample_MAGIC sample_loaded (JNum 3) = Inr a'"
    "document a' =
       update_first (is_visual_root (JNum 3)) (add_class (js ''selected''))
         (map (\<lambda>x. if is_selected_root sample_MAGIC x then remove_class (js ''selected'') x else x)
            (document sample_loaded))"
    "select_events a' = select_events sample_loaded @ [JNum 3]"
    by blast
  from selectVisual_single_choice [of sample_loaded "JNum 3" ?e3 sample_MAGIC a'] one a'(1)
  have le: "length (filter (is_selected_root sample_MAGIC) (document a')) \<le> 1" by blast
  have d: "map classes (document a')
            = [[], [sample_MAGIC, js ''visual-root''], [],
               [sample_MAGIC, js ''visual-root'', js ''selected'']]"
    unfolding a'(2)
    by (simp add: app_eval js_def int_text_def nat_digits_small sample_MAGIC_def
          add_class_def remove_class_def)
  from a'(3) have s: "select_events a' = [JNum 3]"
    by (simp add: sample_loaded_def App_constructor_def)
  from r2 a'(1) d s le show ?thesis by simp
qed

subsection \<open>The pattern on a rendered text\<close>

lemma occurs_in_iff: "occurs_in M s \<longleftrightarrow> (\<exists>u w. s = u @ M @ w)"
proof (induction s)
  case Nil
  show ?case by (auto simp: prefix_def)
next
  case (Cons x xs)
  show ?case
  proof
    assume "occurs_in M (x # xs)"
    then consider "prefix M (x # xs)" | "occurs_in M xs" by auto
    then show "\<exists>u w. x # xs = u @ M @ w"
    proof cases
      case 1
      then show ?thesis by (metis append_Nil prefix_def)
    next
      case 2
      with Cons obtain u w where "xs = u @ M @ w" by blast
      then have "x # xs = (x # u) @ M @ w" by simp
      then show ?thesis by blast
    qed
  next
    assume "\<exists>u w. x # xs = u @ M @ w"
    then obtain u w where e: "x # xs = u @ M @ w" by blast
    show "occurs_in M (x # xs)"
    proof (cases u)
      case Nil
      with e have "prefix M (x # xs)" by (simp add: prefix_def)
      then show ?thesis by simp
    next
      case (Cons y u')
      with e have "xs = u' @ M @ w" by simp
      with Cons.IH show ?thesis by auto
    qed
  qed
qed

lemma marker_chars:
  assumes "marker_ok M"
  shows "M \<noteq> []" "hd M \<in> set M" "is_word (hd M)" "\<And>c. c \<in> set M \<Longrightarrow> is_word c \<or> c = 45"
  using assms by (auto simp: marker_ok_def list_all_iff)

lemma not_word: "\<not> is_word 60" "\<not> is_word 32" "\<not> is_word 10" "\<not> is_word 45" "\<not> is_word 62"
  "\<not> is_word 33"
  by (simp_all add: is_word_def)

lemma word_not_space: "is_word c \<Longrightarrow> \<not> is_space c"
  by (auto simp: is_word_def is_space_def)

lemma marker_avoids:
  assumes "marker_ok M"
  shows "60 \<notin> set M" "32 \<notin> set M" "10 \<notin> set M"
  using marker_chars(4) [OF assms, of 60] marker_chars(4) [OF assms, of 32]
    marker_chars(4) [OF assms, of 10] not_word
  by auto

text \<open>No marker starts inside the marker that closes the block, or after it.\<close>

lemma no_later_marker:
  assumes "marker_ok M" and "0 < i"
  shows "\<not> prefix M (drop i (M @ js '' -->''))"
proof
  assume p: "prefix M (drop i (M @ js '' -->''))"
  show False
  proof (cases "i < length M")
    case True
    from p have "prefix M (drop i M @ js '' -->'')" using True by simp
    then have "prefix M (drop i M) \<or> (\<exists>us. M = drop i M @ us \<and> prefix us (js '' -->''))"
      by (simp add: prefix_append)
    then show False
    proof
      assume "prefix M (drop i M)"
      then have "length M \<le> length (drop i M)" by (rule prefix_length_le)
      with True assms(2) show False by simp
    next
      assume "\<exists>us. M = drop i M @ us \<and> prefix us (js '' -->'')"
      then obtain us where us: "M = drop i M @ us" "prefix us (js '' -->'')" by blast
      from us(1) have "length (drop i M) + length us = length M" by (metis length_append)
      with True assms(2) have "us \<noteq> []" by auto
      with us(2) have "hd us = 32" by (cases us) (auto simp: js_def)
      with \<open>us \<noteq> []\<close> have "32 \<in> set us" by (metis hd_in_set)
      with us(1) have "32 \<in> set M" by (metis Un_iff set_append)
      with marker_avoids(2) [OF assms(1)] show False by simp
    qed
  next
    case False
    then have "drop i (M @ js '' -->'') = drop (i - length M) (js '' -->'')" by simp
    with p have "prefix M (drop (i - length M) (js '' -->''))" by simp
    then obtain r where "drop (i - length M) (js '' -->'') = M @ r" by (auto simp: prefix_def)
    then have "set M \<subseteq> set (drop (i - length M) (js '' -->''))" by simp
    also have "\<dots> \<subseteq> set (js '' -->'')" by (rule set_drop_subset)
    finally have "hd M \<in> {32, 45, 62}"
      using marker_chars(2) [OF assms(1)] by (auto simp: js_def)
    with marker_chars(3) [OF assms(1)] not_word show False by auto
  qed
qed

lemma match_data_None:
  "M \<noteq> [] \<Longrightarrow> (\<And>i. i \<le> length s \<Longrightarrow> \<not> prefix M (drop i s)) \<Longrightarrow> match_data M s = None"
proof (induction s)
  case Nil
  then show ?case by simp
next
  case (Cons x xs)
  have "match_data M xs = None"
  proof (rule Cons.IH [OF Cons.prems(1)])
    fix i assume "i \<le> length xs"
    with Cons.prems(2) [of "Suc i"] show "\<not> prefix M (drop i xs)" by simp
  qed
  moreover from Cons.prems(2) [of 0] have "\<not> prefix M (x # xs)" by simp
  ultimately show ?case by simp
qed

lemma match_data_prepend:
  "match_data M s = Some (d0, a) \<Longrightarrow> match_data M (d @ s) = Some (d @ d0, a)"
  by (induction d) auto

lemma match_data_last:
  assumes "marker_ok M"
  shows "match_data M (d @ M @ js '' -->'') = Some (d, [])"
proof -
  from marker_chars(1) [OF assms] obtain m ms where M: "M = m # ms" by (cases M) auto
  have n: "match_data M (ms @ js '' -->'') = None"
  proof (rule match_data_None [OF marker_chars(1) [OF assms]])
    fix i
    from no_later_marker [OF assms, of "Suc i"]
    show "\<not> prefix M (drop i (ms @ js '' -->''))" by (simp add: M)
  qed
  have c: "match_close (js '' -->'') = []"
    by (simp add: match_close_def js_def is_space_def)
  have "match_data M (M @ js '' -->'') = Some ([], [])"
    using n c by (simp add: M)
  from match_data_prepend [OF this, of d] show ?thesis by simp
qed

lemma match_open_block:
  assumes "marker_ok M"
  shows "match_open M (js ''<!-- '' @ M @ d @ M @ js '' -->'') = Some (d, [])"
proof -
  from marker_chars(1) [OF assms] obtain m ms where M: "M = m # ms" by (cases M) auto
  with marker_chars(3) [OF assms] have m: "\<not> is_space m" by (simp add: word_not_space)
  have mm: "match_marker M (M @ d @ M @ js '' -->'') = Some (d, [])"
    using match_data_last [OF assms, of d] by (simp add: match_marker_def)
  have "match_spaces M (M @ d @ M @ js '' -->'') = Some (d, [])"
    using mm m by (simp add: M)
  then have "match_spaces M (32 # M @ d @ M @ js '' -->'') = Some (d, [])"
    by (simp add: is_space_def)
  then show ?thesis by (simp add: match_open_def js_def)
qed

lemma not_occurs_snoc:
  assumes "\<not> occurs_in M e" and "c \<notin> set M" and "M \<noteq> []"
  shows "\<not> occurs_in M (e @ [c])"
proof
  assume "occurs_in M (e @ [c])"
  then obtain u w where e: "e @ [c] = u @ M @ w" by (auto simp: occurs_in_iff)
  show False
  proof (cases w rule: rev_cases)
    case Nil
    with e have "e @ [c] = (u @ butlast M) @ [last M]" using assms(3) by simp
    then have "c = last M" by (metis last_snoc)
    with assms(2,3) show False by simp
  next
    case (snoc w' y)
    with e have "e @ [c] = (u @ M @ w') @ [y]" by simp
    then have "e = u @ M @ w'" by (metis butlast_snoc)
    with assms(1) show False by (auto simp: occurs_in_iff)
  qed
qed

text \<open>At no place before the block does the marker start.\<close>

lemma no_marker_before_block:
  assumes "marker_ok M" and "\<not> occurs_in M A" and "suffix u A"
  shows "\<not> prefix M (u @ js ''<!-- '' @ X)"
proof
  assume "prefix M (u @ js ''<!-- '' @ X)"
  then have "prefix M u \<or> (\<exists>us. M = u @ us \<and> prefix us (js ''<!-- '' @ X))"
    by (simp add: prefix_append)
  then show False
  proof
    assume "prefix M u"
    then obtain r where "u = M @ r" by (auto simp: prefix_def)
    moreover from assms(3) obtain z where "A = z @ u" by (auto simp: suffix_def)
    ultimately have "A = z @ M @ r" by simp
    with assms(2) show False by (auto simp: occurs_in_iff)
  next
    assume "\<exists>us. M = u @ us \<and> prefix us (js ''<!-- '' @ X)"
    then obtain us where us: "M = u @ us" "prefix us (js ''<!-- '' @ X)" by blast
    show False
    proof (cases us)
      case Nil
      with us(1) have "u = M" by simp
      moreover from assms(3) obtain z where "A = z @ u" by (auto simp: suffix_def)
      ultimately have "A = z @ M @ []" by simp
      with assms(2) show False by (auto simp: occurs_in_iff simp del: append_Nil2)
    next
      case (Cons c cs)
      with us(2) have "c = 60" by (simp add: js_def)
      with Cons us(1) have "60 \<in> set M" by simp
      with marker_avoids(1) [OF assms(1)] show False by simp
    qed
  qed
qed

lemma match_open_before_block:
  assumes "marker_ok M" and "\<not> occurs_in M A" and "suffix u A" and "u \<noteq> []"
  shows "match_open M (u @ js ''<!-- '' @ X) = None"
proof (cases "match_open M (u @ js ''<!-- '' @ X)")
  case None
  then show ?thesis .
next
  case (Some r)
  obtain d a where "r = (d, a)" by (cases r)
  with Some have s: "match_open M (u @ js ''<!-- '' @ X) = Some (d, a)" by simp
  from match_open_Some [OF s] show ?thesis
  proof
    assume "\<exists>t. u @ js ''<!-- '' @ X = M @ d @ M @ t \<and> a = match_close t"
    then have "prefix M (u @ js ''<!-- '' @ X)" by (auto simp: prefix_def)
    with no_marker_before_block [OF assms(1,2,3)] show ?thesis by simp
  next
    assume "\<exists>ws t. u @ js ''<!-- '' @ X = js ''<!--'' @ ws @ M @ d @ M @ t
              \<and> a = match_close t \<and> (\<forall>c\<in>set ws. is_space c)"
    then obtain ws t where e: "u @ (js ''<!-- '' @ X) = (js ''<!--'' @ ws) @ (M @ d @ M @ t)"
      and ws: "\<forall>c\<in>set ws. is_space c" by auto
    from iffD1 [OF append_eq_append_conv2 [of u "js ''<!-- '' @ X" "js ''<!--'' @ ws" "M @ d @ M @ t"] e]
    obtain v where
      "(u = (js ''<!--'' @ ws) @ v \<and> v @ (js ''<!-- '' @ X) = M @ d @ M @ t)
       \<or> (u @ v = js ''<!--'' @ ws \<and> js ''<!-- '' @ X = v @ (M @ d @ M @ t))"
      by blast
    then show ?thesis
    proof
      assume h: "u = (js ''<!--'' @ ws) @ v \<and> v @ (js ''<!-- '' @ X) = M @ d @ M @ t"
      then have "suffix v u" by (auto simp: suffix_def)
      with assms(3) have "suffix v A" by (auto simp: suffix_def)
      moreover from h have "prefix M (v @ js ''<!-- '' @ X)" by (auto simp: prefix_def)
      ultimately show ?thesis using no_marker_before_block [OF assms(1,2)] by blast
    next
      assume h: "u @ v = js ''<!--'' @ ws \<and> js ''<!-- '' @ X = v @ (M @ d @ M @ t)"
      show ?thesis
      proof (cases v)
        case Nil
        with h have "prefix M ([] @ js ''<!-- '' @ X)" by (auto simp: prefix_def)
        with no_marker_before_block [OF assms(1,2), of "[]" X] show ?thesis
          by (simp add: suffix_bot.extremum)
      next
        case (Cons c cs)
        with h have c: "c = 60" by (simp add: js_def)
        from assms(4) obtain y ys where u: "u = y # ys" by (cases u) auto
        with h have "ys @ v = tl (js ''<!--'' @ ws)" by (metis append_Cons list.sel(3))
        then have "set v \<subseteq> set (tl (js ''<!--'' @ ws))" by (metis Un_upper2 set_append)
        with Cons c have "60 \<in> set (tl (js ''<!--'' @ ws))" by auto
        then have "60 \<in> set ws" by (auto simp: js_def)
        with ws show ?thesis by (auto simp: is_space_def)
      qed
    qed
  qed
qed

lemma match_before_skip:
  "(\<And>u. suffix u A \<Longrightarrow> u \<noteq> [] \<Longrightarrow> match_open M (u @ B) = None) \<Longrightarrow>
     match_before M pre (A @ B) = match_before M (pre @ A) B"
proof (induction A arbitrary: pre)
  case Nil
  show ?case by simp
next
  case (Cons x A)
  from Cons.prems [of "x # A"] have "match_open M (x # A @ B) = None" by simp
  then have "match_before M pre ((x # A) @ B) = match_before M (pre @ [x]) (A @ B)" by simp
  also have "\<dots> = match_before M ((pre @ [x]) @ A) B"
  proof (rule Cons.IH)
    fix u assume "suffix u A" "u \<noteq> []"
    then show "match_open M (u @ B) = None" using Cons.prems [of u] by (simp add: suffix_Cons)
  qed
  finally show ?case by simp
qed

lemma PARSE_REGEX_block:
  assumes "marker_ok M" and "\<not> occurs_in M A"
  shows "PARSE_REGEX M (A @ js ''<!-- '' @ M @ d @ M @ js '' -->'') = Some (A, d, [])"
proof -
  have "match_before M [] (A @ js ''<!-- '' @ M @ d @ M @ js '' -->'')
          = match_before M ([] @ A) (js ''<!-- '' @ M @ d @ M @ js '' -->'')"
    by (rule match_before_skip) (rule match_open_before_block [OF assms])
  also have "\<dots> = Some (A, d, [])"
    using match_before_here [OF match_open_block [OF assms(1), of d], of A] by simp
  finally show ?thesis by (simp add: PARSE_REGEX_def)
qed

lemma PARSE_REGEX_render:
  assumes "marker_ok M" and "\<not> occurs_in M e"
  shows "PARSE_REGEX M (renderComment M \<lparr>data = p, comment = e\<rparr>)
           = Some (if e = [] \<or> ends_with_space e then e else e @ js ''\<newline>'',
                   JSON_stringify p, [])"
proof (cases "e = [] \<or> ends_with_space e")
  case True
  with PARSE_REGEX_block [OF assms, of "JSON_stringify p"] show ?thesis
    by (auto simp: renderComment_def)
next
  case False
  have "\<not> occurs_in M (e @ [10])"
    using not_occurs_snoc [OF assms(2) marker_avoids(3) [OF assms(1)] marker_chars(1) [OF assms(1)]] .
  from PARSE_REGEX_block [OF assms(1) this, of "JSON_stringify p"] False show ?thesis
    by (simp add: renderComment_def js_def)
qed

subsection \<open>Strings survive \<^verbatim>\<open>JSON.stringify\<close> and \<^verbatim>\<open>JSON.parse\<close>\<close>

lemma hex_val_hex_digit: "d < 16 \<Longrightarrow> hex_val (hex_digit d) = Some d"
  by (auto simp: hex_val_def hex_digit_def)

lemma hex_digit_not_u: "d < 16 \<Longrightarrow> hex_digit d \<noteq> 117"
  by (auto simp: hex_digit_def)

lemma string_body_unicode_escape:
  assumes "c < 65536"
  shows "string_body (unicode_escape c @ t)
           = (case string_body t of None \<Rightarrow> None | Some (s, r) \<Rightarrow> Some (c # s, r))"
proof -
  have d: "c div 4096 mod 16 < 16" "c div 256 mod 16 < 16" "c div 16 mod 16 < 16" "c mod 16 < 16"
    by simp_all
  have q3: "c div 4096 mod 16 = c div 4096" using assms by simp
  have e1: "c mod 16 + 16 * (c div 16) = c" by simp
  have "c div 16 div 16 = c div (16 * 16)" by (rule div_mult2_eq [symmetric])
  then have d2: "c div 16 div 16 = c div 256" by simp
  have "c div 256 div 16 = c div (256 * 16)" by (rule div_mult2_eq [symmetric])
  then have d3: "c div 256 div 16 = c div 4096" by simp
  have e2: "c div 16 mod 16 + 16 * (c div 256) = c div 16"
    using mod_mult_div_eq [of "c div 16" 16] unfolding d2 .
  have e3: "c div 256 mod 16 + 16 * (c div 4096) = c div 256"
    using mod_mult_div_eq [of "c div 256" 16] unfolding d3 .
  have v: "4096 * (c div 4096 mod 16) + 256 * (c div 256 mod 16) + 16 * (c div 16 mod 16) + c mod 16 = c"
    unfolding q3 using e1 e2 e3 by linarith
  show ?thesis
    by (simp add: unicode_escape_def hex_val_hex_digit [OF d(1)] hex_val_hex_digit [OF d(2)]
          hex_val_hex_digit [OF d(3)] hex_val_hex_digit [OF d(4)] v split: option.split)
qed

lemma string_body_quote_unit:
  "string_body (quote_unit c @ t)
     = (case string_body t of None \<Rightarrow> None | Some (s, r) \<Rightarrow> Some (c # s, r))"
proof -
  consider "c = 8" | "c = 9" | "c = 10" | "c = 12" | "c = 13" | "c = 34" | "c = 92"
    | "c \<notin> {8, 9, 10, 12, 13, 34, 92}" "c < 32 \<or> is_lead c \<or> is_trail c"
    | "c \<notin> {8, 9, 10, 12, 13, 34, 92}" "\<not> (c < 32 \<or> is_lead c \<or> is_trail c)"
    by blast
  then show ?thesis
  proof cases
    case 8
    then have "c < 65536" by (auto simp: is_lead_def is_trail_def)
    from string_body_unicode_escape [OF this, of t] 8 show ?thesis
      by (simp add: quote_unit_def)
  next
    case 9
    then show ?thesis by (simp add: quote_unit_def)
  qed (auto simp: quote_unit_def unescape_def)
qed

lemma string_body_quote_units:
  "string_body (quote_units s @ 34 # rest) = Some (s, rest)"
proof (induction s rule: quote_units.induct)
  case 1
  show ?case by simp
next
  case (2 c)
  show ?case by (simp add: string_body_quote_unit)
next
  case (3 c d cs)
  show ?case
  proof (cases "is_lead c \<and> is_trail d")
    case True
    then have "c \<noteq> 34" "c \<noteq> 92" "\<not> c < 32" "d \<noteq> 34" "d \<noteq> 92" "\<not> d < 32"
      by (auto simp: is_lead_def is_trail_def)
    with True "3.IH"(1) show ?thesis by simp
  next
    case False
    then have q: "quote_units (c # d # cs) = quote_unit c @ quote_units (d # cs)"
      by (simp only: quote_units.simps if_False)
    from "3.IH"(2) [OF False] show ?thesis
      by (simp only: q append_assoc string_body_quote_unit option.case prod.case)
  qed
qed

lemma parse_string: "string_body (tl (quote s) @ rest) = Some (s, rest)"
  by (simp add: quote_def string_body_quote_units)

subsection \<open>Integers survive\<close>

lemma nat_digits_no_leading_zero: "0 < n \<Longrightarrow> hd (nat_digits n) \<noteq> 48"
proof (induction n rule: nat_digits.induct)
  case (1 n)
  show ?case
  proof (cases "n < 10")
    case True
    with "1.prems" show ?thesis by (simp add: nat_digits_small)
  next
    case False
    then have "0 < n div 10" by simp
    with "1.IH" False have "hd (nat_digits (n div 10)) \<noteq> 48" by simp
    with False show ?thesis by (simp add: nat_digits_large nat_digits_not_Nil)
  qed
qed

lemma takeWhile_digits_end:
  "num_end r \<Longrightarrow> takeWhile is_digit (nat_digits n @ r) = nat_digits n"
  "num_end r \<Longrightarrow> dropWhile is_digit (nat_digits n @ r) = r"
proof -
  assume e: "num_end r"
  have a: "\<forall>c\<in>set (nat_digits n). is_digit c" using nat_digits_digits by blast
  have t: "takeWhile is_digit r = []" using e by (cases r) (auto simp: num_end_def)
  have d: "dropWhile is_digit r = r" using e by (cases r) (auto simp: num_end_def)
  from a t show "takeWhile is_digit (nat_digits n @ r) = nat_digits n"
    by (simp add: takeWhile_append2)
  from a d show "dropWhile is_digit (nat_digits n @ r) = r"
    by (simp add: dropWhile_append2)
qed

lemma int_part_nat_digits:
  assumes "num_end r"
  shows "int_part (nat_digits n @ r) = Some (n, r)"
proof (cases "n = 0")
  case True
  then show ?thesis by (simp add: int_part_def nat_digits_small)
next
  case False
  obtain c cs where d: "nat_digits n = c # cs"
    using nat_digits_not_Nil [of n] by (cases "nat_digits n") auto
  with nat_digits_no_leading_zero [of n] False have c: "c \<noteq> 48" by simp
  from d hd_nat_digits [of n] have dg: "is_digit c" by simp
  have "int_part (nat_digits n @ r)
          = Some (digits_val (takeWhile is_digit (nat_digits n @ r)),
                  dropWhile is_digit (nat_digits n @ r))"
    using c dg by (simp add: int_part_def d)
  then show ?thesis by (simp add: takeWhile_digits_end [OF assms] digits_val_nat_digits)
qed

lemma unsigned_number_nat_digits:
  assumes "num_end r" and "n < 2 ^ 53"
  shows "unsigned_number neg (nat_digits n @ r) = Some (JNum (if neg then - int n else int n), r)"
proof -
  have f: "frac_part r = Some ([], r)"
    using assms(1) by (cases r) (auto simp: frac_part_def num_end_def)
  have e: "exp_part r = Some (0, r)"
    using assms(1) by (cases r) (auto simp: exp_part_def num_end_def)
  show ?thesis
    by (simp add: unsigned_number_def int_part_nat_digits [OF assms(1)] f e
          number_value_safe [OF assms(2)])
qed

lemma number_int_text:
  assumes "num_end r" and "\<bar>n\<bar> < 9007199254740992"
  shows "number (int_text n @ r) = Some (JNum n, r)"
proof (cases "n < 0")
  case True
  with assms(2) have "nat (- n) < 2 ^ 53" by simp
  from unsigned_number_nat_digits [OF assms(1) this, of True] True show ?thesis
    by (simp add: number_def int_text_def)
next
  case False
  with assms(2) have b: "nat n < 2 ^ 53" by simp
  obtain c cs where d: "nat_digits (nat n) = c # cs"
    using nat_digits_not_Nil [of "nat n"] by (cases "nat_digits (nat n)") auto
  with hd_nat_digits [of "nat n"] have "c \<noteq> 45" by (auto simp: is_digit_def)
  with d have "number (nat_digits (nat n) @ r) = unsigned_number False (nat_digits (nat n) @ r)"
    by (simp add: number_def)
  with unsigned_number_nat_digits [OF assms(1) b, of False] False show ?thesis
    by (simp add: int_text_def)
qed

subsection \<open>Values survive\<close>

lemma value_end_num_end: "value_end r \<Longrightarrow> num_end r"
  by (cases r) (auto simp: value_end_def num_end_def is_digit_def)

lemma skip_ws_start: "\<not> json_ws c \<Longrightarrow> skip_ws (c # s) = c # s"
  by (simp add: skip_ws_def)

lemma skip_ws_spaces: "spaces ind \<Longrightarrow> skip_ws (ind @ s) = skip_ws s"
  unfolding skip_ws_def spaces_def by (rule dropWhile_append2) (simp add: json_ws_def)

lemma skip_ws_newline: "skip_ws (10 # s) = skip_ws s"
  by (simp add: skip_ws_def json_ws_def)

lemma spaces_deeper: "spaces ind \<Longrightarrow> spaces (ind @ [32, 32])"
  by (simp add: spaces_def)

lemma value_start_facts:
  "value_start c \<Longrightarrow> \<not> json_ws c \<and> c \<noteq> 93 \<and> c \<noteq> 125"
  by (auto simp: value_start_def json_ws_def is_digit_def)

lemma int_text_start: "\<exists>c t. int_text n = c # t \<and> (c = 45 \<or> is_digit c)"
proof (cases "n < 0")
  case True
  then show ?thesis by (simp add: int_text_def)
next
  case False
  obtain c cs where d: "nat_digits (nat n) = c # cs"
    using nat_digits_not_Nil [of "nat n"] by (cases "nat_digits (nat n)") auto
  with hd_nat_digits [of "nat n"] False show ?thesis by (simp add: int_text_def)
qed

lemma stringify_start:
  "serializable v \<Longrightarrow> \<exists>c t. stringify_at ind v = c # t \<and> value_start c"
proof (cases v)
  case (JNum n)
  assume "serializable v"
  with JNum have "stringify_at ind v = int_text n" by (simp add: Integer_toString_safe)
  with int_text_start [of n] show ?thesis by (auto simp: value_start_def)
next
  case (JFrac m k)
  assume "serializable v"
  with JFrac show ?thesis by simp
next
  case (JInf neg)
  assume "serializable v"
  with JInf show ?thesis by simp
qed (auto simp: value_start_def js_def quote_def)

lemma parse_value_scalar:
  assumes "value_end r"
  shows "parse_value (Suc f) (stringify_at ind JNull @ r) = Some (JNull, r)"
    and "parse_value (Suc f) (stringify_at ind (JBool b) @ r) = Some (JBool b, r)"
    and "parse_value (Suc f) (stringify_at ind (JStr s) @ r) = Some (JStr s, r)"
    and "parse_value (Suc f) (stringify_at ind (JArr []) @ r) = Some (JArr [], r)"
    and "parse_value (Suc f) (stringify_at ind (JObj []) @ r) = Some (JObj [], r)"
  by (simp_all add: js_def quote_def string_body_quote_units skip_ws_def json_ws_def)

lemma parse_value_number:
  assumes "value_end r" and "\<bar>n\<bar> < 9007199254740992"
  shows "parse_value (Suc f) (stringify_at ind (JNum n) @ r) = Some (JNum n, r)"
proof -
  from int_text_start [of n] obtain c t where c: "int_text n = c # t" "c = 45 \<or> is_digit c"
    by blast
  from c(2) have n: "c \<noteq> 34" "c \<noteq> 91" "c \<noteq> 123" "c \<noteq> 110" "c \<noteq> 116" "c \<noteq> 102"
    by (auto simp: is_digit_def)
  have "parse_value (Suc f) ((c # t) @ r) = number ((c # t) @ r)"
    using n by (simp add: js_def)
  with number_int_text [OF value_end_num_end [OF assms(1)] assms(2)] c(1) assms(2)
  show ?thesis by (simp add: Integer_toString_safe)
qed

lemma parse_elements_join:
  assumes H: "\<And>x f r. x \<in> set xs \<Longrightarrow> nodes x \<le> f \<Longrightarrow> value_end r \<Longrightarrow>
                parse_value f (T x @ r) = Some (x, r)"
    and S: "\<And>x. x \<in> set xs \<Longrightarrow> \<exists>c t. T x = c # t \<and> value_start c"
    and ne: "xs \<noteq> []" and i': "spaces ind'" and i: "spaces ind"
    and fuel: "sum_list (map (\<lambda>x. Suc (nodes x)) xs) \<le> f"
  shows "parse_elements f acc (join ([44, 10] @ ind') (map T xs) @ [10] @ ind @ [93] @ rest)
           = Some (JArr (acc @ xs), rest)"
  using H S ne fuel
proof (induction xs arbitrary: acc f)
  case Nil
  then show ?case by simp
next
  case (Cons x xs)
  from Cons.prems(4) obtain f' where f: "f = Suc f'" "nodes x \<le> f'"
    "sum_list (map (\<lambda>x. Suc (nodes x)) xs) \<le> f'"
    by (cases f) auto
  show ?case
  proof (cases xs)
    case Nil
    have e: "value_end ([10] @ ind @ [93] @ rest)" by (simp add: value_end_def)
    have p: "parse_value f' (T x @ [10] @ ind @ [93] @ rest) = Some (x, [10] @ ind @ [93] @ rest)"
      by (rule Cons.prems(1) [OF _ f(2) e]) simp
    have s: "skip_ws ([10] @ ind @ [93] @ rest) = 93 # rest"
      using skip_ws_spaces [OF i, of "93 # rest"]
      by (simp add: skip_ws_newline skip_ws_start json_ws_def)
    from p s show ?thesis by (simp add: Nil f(1))
  next
    case (Cons y ys)
    let ?tail = "join ([44, 10] @ ind') (map T xs) @ [10] @ ind @ [93] @ rest"
    let ?r = "[44, 10] @ ind' @ ?tail"
    have e: "value_end ?r" by (simp add: value_end_def)
    have p: "parse_value f' (T x @ ?r) = Some (x, ?r)"
      by (rule Cons.prems(1) [OF _ f(2) e]) simp
    from Cons.prems(2) [of y] Cons obtain c t where c: "T y = c # t" "value_start c" by auto
    then have st: "?tail = c # (t @ tl (join ([44, 10] @ ind') (map T xs)) @ [10] @ ind @ [93] @ rest)
                   \<or> (\<exists>u. ?tail = c # u)"
      using Cons by (cases ys) auto
    then obtain u where u: "?tail = c # u" by blast
    have s1: "skip_ws ?r = ?r" by (simp add: skip_ws_start json_ws_def)
    have "skip_ws ?tail = ?tail"
      unfolding u using value_start_facts [OF c(2)] by (simp add: skip_ws_start)
    with skip_ws_spaces [OF i', of ?tail] have s2: "skip_ws ([10] @ ind' @ ?tail) = ?tail"
      by (simp add: skip_ws_newline)
    have ih: "parse_elements f' (acc @ [x]) ?tail = Some (JArr ((acc @ [x]) @ xs), rest)"
    proof (rule Cons.IH)
      show "\<And>x f r. x \<in> set xs \<Longrightarrow> nodes x \<le> f \<Longrightarrow> value_end r \<Longrightarrow>
              parse_value f (T x @ r) = Some (x, r)"
        using Cons.prems(1) by simp
      show "\<And>x. x \<in> set xs \<Longrightarrow> \<exists>c t. T x = c # t \<and> value_start c"
        using Cons.prems(2) by simp
      show "xs \<noteq> []" using Cons by simp
      show "sum_list (map (\<lambda>x. Suc (nodes x)) xs) \<le> f'" by (rule f(3))
    qed
    have j: "join ([44, 10] @ ind') (map T (x # xs)) @ [10] @ ind @ [93] @ rest = T x @ ?r"
      using Cons by simp
    show ?thesis
      unfolding j f(1) parse_elements.simps p option.case prod.case s1
      using s2 ih by simp
  qed
qed

lemma array_index_index_key: "array_index k \<Longrightarrow> index_key k"
  by (simp add: array_index_def index_key_def)

lemma obj_set_new:
  "k \<notin> fst ` set acc \<Longrightarrow> \<not> array_index k \<Longrightarrow> obj_set k v acc = acc @ [(k, v)]"
  by (induction acc) auto

lemma parse_members_join:
  assumes H: "\<And>kv f r. kv \<in> set kvs \<Longrightarrow> nodes (snd kv) \<le> f \<Longrightarrow> value_end r \<Longrightarrow>
                parse_value f (T (snd kv) @ r) = Some (snd kv, r)"
    and S: "\<And>kv. kv \<in> set kvs \<Longrightarrow> \<exists>c t. T (snd kv) = c # t \<and> value_start c"
    and ne: "kvs \<noteq> []" and i': "spaces ind'" and i: "spaces ind"
    and fuel: "sum_list (map (\<lambda>kv. Suc (nodes (snd kv))) kvs) \<le> f"
    and dist: "distinct (map fst (acc @ kvs))"
    and nk: "\<And>kv. kv \<in> set kvs \<Longrightarrow> \<not> array_index (fst kv)"
  shows "parse_members f acc
           (join ([44, 10] @ ind') (map (\<lambda>kv. quote (fst kv) @ [58, 32] @ T (snd kv)) kvs)
              @ [10] @ ind @ [125] @ rest)
           = Some (JObj (acc @ kvs), rest)"
  using H S ne fuel dist nk
proof (induction kvs arbitrary: acc f)
  case Nil
  then show ?case by simp
next
  case (Cons kv kvs)
  obtain k v where kv: "kv = (k, v)" by (cases kv)
  from Cons.prems(6) [of kv] have na: "\<not> array_index k" by (simp add: kv)
  from Cons.prems(4) obtain f' where f: "f = Suc f'" "nodes v \<le> f'"
    "sum_list (map (\<lambda>kv. Suc (nodes (snd kv))) kvs) \<le> f'"
    by (cases f) (auto simp: kv)
  from Cons.prems(5) have new: "k \<notin> fst ` set acc" by (auto simp: kv)
  from Cons.prems(2) [of kv] obtain c t where c: "T v = c # t" "value_start c"
    by (auto simp: kv)
  have sv: "skip_ws (32 # T v @ r) = T v @ r" for r
    using value_start_facts [OF c(2)] by (simp add: skip_ws_def json_ws_def c(1))
  let ?M = "\<lambda>kv. quote (fst kv) @ [58, 32] @ T (snd kv)"
  show ?case
  proof (cases kvs)
    case Nil
    let ?r = "[10] @ ind @ [125] @ rest"
    have e: "value_end ?r" by (simp add: value_end_def)
    have p: "parse_value f' (T v @ ?r) = Some (v, ?r)"
      using Cons.prems(1) [of kv f' ?r] f(2) e by (simp add: kv)
    have s: "skip_ws ?r = 125 # rest"
      using skip_ws_spaces [OF i, of "125 # rest"]
      by (simp add: skip_ws_newline skip_ws_start json_ws_def)
    have "parse_members (Suc f') acc (quote k @ [58, 32] @ T v @ ?r)
            = Some (JObj (obj_set k v acc), rest)"
      using p s sv [of ?r]
      by (simp add: quote_def string_body_quote_units skip_ws_start json_ws_def)
    then show ?thesis by (simp add: Nil f(1) kv obj_set_new [OF new na])
  next
    case (Cons kv' kvs')
    let ?tail = "join ([44, 10] @ ind') (map ?M kvs) @ [10] @ ind @ [125] @ rest"
    let ?r = "[44, 10] @ ind' @ ?tail"
    have e: "value_end ?r" by (simp add: value_end_def)
    have p: "parse_value f' (T v @ ?r) = Some (v, ?r)"
      using Cons.prems(1) [of kv f' ?r] f(2) e by (simp add: kv)
    obtain u where u: "?tail = 34 # u"
      using Cons by (cases kvs') (auto simp: quote_def)
    have s1: "skip_ws ?r = ?r" by (simp add: skip_ws_start json_ws_def)
    have "skip_ws ?tail = ?tail"
      unfolding u by (simp add: skip_ws_start json_ws_def)
    with skip_ws_spaces [OF i', of ?tail] have s2: "skip_ws ([10] @ ind' @ ?tail) = ?tail"
      by (simp add: skip_ws_newline)
    have ih: "parse_members f' (acc @ [(k, v)]) ?tail = Some (JObj ((acc @ [(k, v)]) @ kvs), rest)"
    proof (rule Cons.IH)
      show "\<And>kv f r. kv \<in> set kvs \<Longrightarrow> nodes (snd kv) \<le> f \<Longrightarrow> value_end r \<Longrightarrow>
              parse_value f (T (snd kv) @ r) = Some (snd kv, r)"
        using Cons.prems(1) by simp
      show "\<And>kv. kv \<in> set kvs \<Longrightarrow> \<exists>c t. T (snd kv) = c # t \<and> value_start c"
        using Cons.prems(2) by simp
      show "kvs \<noteq> []" using Cons by simp
      show "sum_list (map (\<lambda>kv. Suc (nodes (snd kv))) kvs) \<le> f'" by (rule f(3))
      show "distinct (map fst ((acc @ [(k, v)]) @ kvs))" using Cons.prems(5) by (simp add: kv)
      show "\<And>kv. kv \<in> set kvs \<Longrightarrow> \<not> array_index (fst kv)" using Cons.prems(6) by simp
    qed
    have j: "join ([44, 10] @ ind') (map ?M (kv # kvs)) @ [10] @ ind @ [125] @ rest
               = quote k @ [58, 32] @ T v @ ?r"
      using Cons by (simp add: kv)
    have step: "parse_members (Suc f') acc (quote k @ [58, 32] @ T v @ ?r)
            = parse_members f' (obj_set k v acc) ?tail"
      using p sv [of ?r] s2
      by (simp add: quote_def string_body_quote_units skip_ws_start json_ws_def)
    show ?thesis
      by (simp only: j f(1) step obj_set_new [OF new na] ih) (simp add: kv)
  qed
qed

lemma parse_stringify_at:
  "serializable v \<Longrightarrow> spaces ind \<Longrightarrow> nodes v \<le> f \<Longrightarrow> value_end r \<Longrightarrow>
     parse_value f (stringify_at ind v @ r) = Some (v, r)"
proof (induction ind v arbitrary: f r rule: stringify_at.induct)
  case (1 ind)
  then obtain f' where "f = Suc f'" by (cases f) auto
  with parse_value_scalar(1) [OF "1.prems"(4)] show ?case by simp
next
  case (2 ind b)
  then obtain f' where "f = Suc f'" by (cases f) auto
  with parse_value_scalar(2) [OF "2.prems"(4)] show ?case by simp
next
  case (3 ind n)
  then obtain f' where "f = Suc f'" by (cases f) auto
  moreover from "3.prems"(1) have "\<bar>n\<bar> < 9007199254740992" by simp
  ultimately show ?case using parse_value_number [OF "3.prems"(4)] by simp
next
  case (4 ind m k)
  then show ?case by simp
next
  case (8 ind neg)
  then show ?case by simp
next
  case (5 ind s)
  then obtain f' where "f = Suc f'" by (cases f) auto
  with parse_value_scalar(3) [OF "5.prems"(4)] show ?case by simp
next
  case (6 ind xs)
  from "6.prems"(3) obtain f' where f: "f = Suc f'"
    "sum_list (map (\<lambda>x. Suc (nodes x)) xs) \<le> f'"
    by (cases f) auto
  show ?case
  proof (cases "xs = []")
    case True
    with parse_value_scalar(4) [OF "6.prems"(4), of f' ind] f(1) show ?thesis by simp
  next
    case False
    let ?ind = "ind @ [32, 32]"
    let ?T = "stringify_at ?ind"
    let ?body = "join ([44, 10] @ ?ind) (map ?T xs) @ [10] @ ind @ [93] @ r"
    have sp: "spaces ?ind" by (rule spaces_deeper [OF "6.prems"(2)])
    have ser: "\<And>x. x \<in> set xs \<Longrightarrow> serializable x"
      using "6.prems"(1) by (simp add: list_all_iff)
    have el: "parse_elements f' [] ?body = Some (JArr ([] @ xs), r)"
    proof (rule parse_elements_join [OF _ _ False sp "6.prems"(2) f(2)])
      fix x g t assume "x \<in> set xs" "nodes x \<le> g" "value_end t"
      then show "parse_value g (?T x @ t) = Some (x, t)"
        using "6.IH" [OF False _ _ sp] ser by blast
    next
      fix x assume "x \<in> set xs"
      then show "\<exists>c t. ?T x = c # t \<and> value_start c"
        using stringify_start ser by blast
    qed
    obtain x0 xs0 where xs: "xs = x0 # xs0" using False by (cases xs) auto
    from stringify_start [OF ser, of x0 ?ind] xs obtain c t where c: "?T x0 = c # t" "value_start c"
      by auto
    obtain u where u: "?body = c # u" using c(1) xs by (cases xs0) auto
    have "skip_ws ?body = ?body"
      unfolding u using value_start_facts [OF c(2)] by (simp add: skip_ws_start)
    with skip_ws_spaces [OF sp, of ?body] have s: "skip_ws ([10] @ ?ind @ ?body) = ?body"
      by (simp add: skip_ws_newline)
    have s': "skip_ws (10 # ind @ 32 # 32 # c # u) = c # u"
      using s unfolding u by simp
    have t: "stringify_at ind (JArr xs) @ r = 91 # ([10] @ ?ind @ ?body)"
      using False by simp
    have pv: "parse_value (Suc f') (91 # ([10] @ ?ind @ ?body)) = parse_elements f' [] ?body"
      unfolding u using value_start_facts [OF c(2)] by (simp add: s')
    show ?thesis unfolding t f(1) pv el by simp
  qed
next
  case (7 ind kvs)
  from "7.prems"(3) obtain f' where f: "f = Suc f'"
    "sum_list (map (\<lambda>kv. Suc (nodes (snd kv))) kvs) \<le> f'"
    by (cases f) auto
  show ?case
  proof (cases "kvs = []")
    case True
    with parse_value_scalar(5) [OF "7.prems"(4), of f' ind] f(1) show ?thesis by simp
  next
    case False
    let ?ind = "ind @ [32, 32]"
    let ?T = "stringify_at ?ind"
    let ?M = "\<lambda>kv. quote (fst kv) @ [58, 32] @ ?T (snd kv)"
    let ?body = "join ([44, 10] @ ?ind) (map ?M kvs) @ [10] @ ind @ [125] @ r"
    have sp: "spaces ?ind" by (rule spaces_deeper [OF "7.prems"(2)])
    have ser: "\<And>kv. kv \<in> set kvs \<Longrightarrow> serializable (snd kv)"
      using "7.prems"(1) by (simp add: list_all_iff)
    have dist: "distinct (map fst ([] @ kvs))" using "7.prems"(1) by simp
    have el: "parse_members f' [] ?body = Some (JObj ([] @ kvs), r)"
    proof (rule parse_members_join [OF _ _ False sp "7.prems"(2) f(2) dist])
      fix kv g t assume "kv \<in> set kvs" "nodes (snd kv) \<le> g" "value_end t"
      then show "parse_value g (?T (snd kv) @ t) = Some (snd kv, t)"
        using "7.IH" [OF False _ _ sp] ser by blast
    next
      fix kv assume "kv \<in> set kvs"
      then show "\<exists>c t. ?T (snd kv) = c # t \<and> value_start c"
        using stringify_start ser by blast
    next
      fix kv assume "kv \<in> set kvs"
      with "7.prems"(1) have "\<not> index_key (fst kv)" by (simp add: list_all_iff)
      then show "\<not> array_index (fst kv)" using array_index_index_key by blast
    qed
    obtain kv kvs' where kvs: "kvs = kv # kvs'" using False by (cases kvs) auto
    obtain u where u: "?body = 34 # u"
      unfolding kvs by (cases kvs') (auto simp: quote_def)
    have "skip_ws ?body = ?body"
      unfolding u by (simp add: skip_ws_start json_ws_def)
    with skip_ws_spaces [OF sp, of ?body] have s: "skip_ws ([10] @ ?ind @ ?body) = ?body"
      by (simp add: skip_ws_newline)
    have s': "skip_ws (10 # ind @ 32 # 32 # 34 # u) = 34 # u"
      using s unfolding u by simp
    have t: "stringify_at ind (JObj kvs) @ r = 123 # ([10] @ ?ind @ ?body)"
      using False by simp
    have pv: "parse_value (Suc f') (123 # ([10] @ ?ind @ ?body)) = parse_members f' [] ?body"
      unfolding u by (simp add: s')
    show ?thesis unfolding t f(1) pv el by simp
  qed
qed

lemma join_bound:
  assumes "\<And>x. x \<in> set xs \<Longrightarrow> g x \<le> length (T x)" and "sep \<noteq> []"
  shows "sum_list (map (\<lambda>x. Suc (g x)) xs) \<le> Suc (length (join sep (map T xs)))"
  using assms(1)
proof (induction xs)
  case Nil
  show ?case by simp
next
  case (Cons x xs)
  have x: "g x \<le> length (T x)" using Cons.prems by simp
  show ?case
  proof (cases xs)
    case Nil
    with x show ?thesis by simp
  next
    case (Cons y ys)
    have "sum_list (map (\<lambda>x. Suc (g x)) xs) \<le> Suc (length (join sep (map T xs)))"
      using Cons.IH Cons.prems by simp
    moreover have "1 \<le> length sep" using assms(2) by (cases sep) auto
    ultimately show ?thesis using x Cons by simp
  qed
qed

lemma nodes_bound: "serializable v \<Longrightarrow> nodes v \<le> length (stringify_at ind v)"
proof (induction ind v rule: stringify_at.induct)
  case (3 ind n)
  then have "stringify_at ind (JNum n) = int_text n" by (simp add: Integer_toString_safe)
  with int_text_start [of n] show ?case by auto
next
  case (6 ind xs)
  show ?case
  proof (cases "xs = []")
    case True
    then show ?thesis by (simp add: js_def)
  next
    case False
    have "sum_list (map (\<lambda>x. Suc (nodes x)) xs)
            \<le> Suc (length (join ([44, 10] @ (ind @ [32, 32]))
                 (map (stringify_at (ind @ [32, 32])) xs)))"
      using "6.IH" [OF False] "6.prems" by (intro join_bound) (auto simp: list_all_iff)
    with False show ?thesis by simp
  qed
next
  case (7 ind kvs)
  show ?case
  proof (cases "kvs = []")
    case True
    then show ?thesis by (simp add: js_def)
  next
    case False
    have "sum_list (map (\<lambda>kv. Suc (nodes (snd kv))) kvs)
            \<le> Suc (length (join ([44, 10] @ (ind @ [32, 32]))
                 (map (\<lambda>kv. quote (fst kv) @ [58, 32] @ stringify_at (ind @ [32, 32]) (snd kv)) kvs)))"
    proof (intro join_bound)
      fix kv assume k: "kv \<in> set kvs"
      with "7.prems" have "serializable (snd kv)" by (simp add: list_all_iff)
      with "7.IH" [OF False k] 
      show "nodes (snd kv) \<le> length (quote (fst kv) @ [58, 32] @ stringify_at (ind @ [32, 32]) (snd kv))"
        by simp
    qed simp
    with False show ?thesis by simp
  qed
qed (simp_all add: js_def quote_def)

lemma JSON_round_trip: "serializable v \<Longrightarrow> JSON_parse (JSON_stringify v) = Inr v"
proof -
  assume s: "serializable v"
  let ?t = "stringify_at [] v"
  obtain c t where c: "?t = c # t" "value_start c" using stringify_start [OF s] by blast
  have w: "skip_ws ?t = ?t" unfolding c(1) using value_start_facts [OF c(2)] by (simp add: skip_ws_start)
  have "parse_value (length ?t) (?t @ []) = Some (v, [])"
    by (rule parse_stringify_at [OF s _ nodes_bound [OF s]]) (simp_all add: spaces_def value_end_def)
  then have p: "parse_value (length ?t) ?t = Some (v, [])" by simp
  show ?thesis unfolding JSON_parse_def JSON_stringify_def w p by (simp add: skip_ws_def)
qed

subsection \<open>The marker and the envelopes of the examples\<close>

lemma sample_marker_ok: "marker_ok sample_MAGIC"
  by (simp add: marker_ok_def sample_MAGIC_def js_def is_word_def)

lemma sample_envelopes:
  "\<not> occurs_in sample_MAGIC (js ''Summary'')"
  "\<not> occurs_in sample_MAGIC (js ''Summary\<newline>'')"
  "\<not> ends_with_space (js ''Summary'')"
  "ends_with_space (js ''Summary\<newline>'')"
  by (simp_all add: sample_MAGIC_def js_def ends_with_space_def is_space_def)

lemma scenario_serializable: "serializable scenario_payload \<and> truthy scenario_payload"
  by (simp add: scenario_payload_def js_def index_key_def is_digit_def)

subsection \<open>The round trip of the codec\<close>

text \<open>
  C1. The round trip of the codec. For a marker that is a name, an envelope \<open>e\<close> that
  does not hold the marker and a payload \<open>p\<close> that is a value of the host language and
  is not falsy, \<^verbatim>\<open>parseComment\<close> of \<^verbatim>\<open>renderComment\<close> returns the payload \<open>p\<close>, and the
  envelope \<open>e\<close> when \<open>e\<close> is empty or ends in white space, \<open>e\<close> followed by a line feed
  otherwise: the line feed \<^verbatim>\<open>renderComment\<close> puts before the block stays in the envelope
  read back.
\<close>

theorem codec_round_trip:
  assumes "marker_ok M" and "\<not> occurs_in M e" and "serializable p" and "truthy p"
  shows "parseComment M (renderComment M \<lparr>data = p, comment = e\<rparr>)
           = Some \<lparr>data = p,
                   comment = (if e = [] \<or> ends_with_space e then e else e @ js ''\<newline>'')\<rparr>"
  using assms(4)
  by (simp add: parseComment_def PARSE_REGEX_render [OF assms(1,2)] JSON_round_trip [OF assms(3)]
        Try_def)

text \<open>An envelope without a final line feed and a payload without annotations.\<close>

theorem codec_round_trip_witness:
  "parseComment sample_MAGIC
      (renderComment sample_MAGIC \<lparr>data = JObj [(js ''comments'', JArr [])], comment = js ''Summary''\<rparr>)
     = Some \<lparr>data = JObj [(js ''comments'', JArr [])], comment = js ''Summary\<newline>''\<rparr>"
  using codec_round_trip [of sample_MAGIC "js ''Summary''" "JObj [(js ''comments'', JArr [])]"]
    sample_marker_ok sample_envelopes(1,3)
  by (simp add: js_def index_key_def is_digit_def)

text \<open>
  The envelope \<^verbatim>\<open>Summary\<close> does not come back as it was written, and the payload \<^verbatim>\<open>0\<close>
  does not come back at all: \<^verbatim>\<open>parseComment\<close> takes a falsy value for a failed parse.
\<close>

theorem envelope_newline_counterexample:
  "serializable (JObj []) \<and> serializable (JNum 0)
   \<and> \<not> occurs_in sample_MAGIC (js ''Summary'')
   \<and> parseComment sample_MAGIC (renderComment sample_MAGIC \<lparr>data = JObj [], comment = js ''Summary''\<rparr>)
       = Some \<lparr>data = JObj [], comment = js ''Summary\<newline>''\<rparr>
   \<and> parseComment sample_MAGIC (renderComment sample_MAGIC \<lparr>data = JNum 0, comment = []\<rparr>)
       = None"
proof -
  have a: "PARSE_REGEX sample_MAGIC (renderComment sample_MAGIC \<lparr>data = JObj [], comment = js ''Summary''\<rparr>)
             = Some (js ''Summary\<newline>'', JSON_stringify (JObj []), [])"
    using PARSE_REGEX_render [OF sample_marker_ok sample_envelopes(1), of "JObj []"] sample_envelopes(3)
    by (simp add: js_def)
  have b: "PARSE_REGEX sample_MAGIC (renderComment sample_MAGIC \<lparr>data = JNum 0, comment = []\<rparr>)
             = Some ([], JSON_stringify (JNum 0), [])"
    using PARSE_REGEX_render [OF sample_marker_ok, of "[]" "JNum 0"]
    by (simp add: sample_MAGIC_def js_def)
  have c: "JSON_parse (JSON_stringify (JObj [])) = Inr (JObj [])"
    by (rule JSON_round_trip) simp
  have d: "JSON_parse (JSON_stringify (JNum 0)) = Inr (JNum 0)"
    by (rule JSON_round_trip) simp
  show ?thesis
    using sample_envelopes(1) by (simp add: parseComment_def a b c d Try_def)
qed

subsection \<open>The scenario of the spec\<close>

text \<open>
  C7. The scenario. For a marker that is a name and is no part of \<^verbatim>\<open>Summary\<close> and its
  line feed, encoding the payload of one annotation (id 2, file \<^verbatim>\<open>a.go\<close>, line 10, text
  \<^verbatim>\<open>fix this\<close>) with the envelope \<^verbatim>\<open>Summary\<close> and a line feed, and decoding the result,
  gives back that payload and that envelope.
\<close>

theorem scenario_round_trip:
  assumes "marker_ok M" and "\<not> occurs_in M (js ''Summary\<newline>'')"
  shows "parseComment M (renderComment M \<lparr>data = scenario_payload, comment = js ''Summary\<newline>''\<rparr>)
           = Some \<lparr>data = scenario_payload, comment = js ''Summary\<newline>''\<rparr>"
proof -
  have j: "JSON_parse (JSON_stringify scenario_payload) = Inr scenario_payload"
    by (rule JSON_round_trip) (simp add: scenario_serializable)
  have e: "ends_with_space (js ''Summary\<newline>'')" by (rule sample_envelopes(4))
  show ?thesis
    using e scenario_serializable
    by (simp add: parseComment_def PARSE_REGEX_render [OF assms] j Try_def)
qed

theorem scenario_round_trip_witness:
  "parseComment sample_MAGIC
      (renderComment sample_MAGIC \<lparr>data = scenario_payload, comment = js ''Summary\<newline>''\<rparr>)
     = Some \<lparr>data = scenario_payload, comment = js ''Summary\<newline>''\<rparr>"
  using scenario_round_trip [of sample_MAGIC] sample_marker_ok sample_envelopes(2) by simp

end
